theory Spec2Isabelle
  imports Complex_Main "HOL-Library.Word"
begin

section \<open>Machine types\<close>

text \<open>
  The benchmark \<^verbatim>\<open>dot.cpp\<close> is embedded for an LP64 platform: \<^verbatim>\<open>size_t\<close> is an unsigned
  64-bit integer whose arithmetic wraps around, \<^verbatim>\<open>int\<close> is a signed 32-bit integer, and
  \<^verbatim>\<open>float\<close> is an IEEE 754 binary32 value, kept as its 32-bit pattern.
\<close>

type_synonym size_t = "64 word"
type_synonym float = "32 word"

section \<open>IEEE 754 binary32 arithmetic\<close>

text \<open>
  The arithmetic of \<^verbatim>\<open>float\<close> is the platform's, not the repository's. It is written out
  here so that the kernel can be run on concrete matrices: every operation computes the exact
  rational result and rounds it to nearest, ties to even, with gradual underflow and overflow
  to infinity. Products are rounded before they are added (no fused multiply-add, no excess
  precision). The payload and sign of a NaN result differ between processors; the model
  returns one quiet NaN, and no statement below depends on which.
\<close>

definition pow2 :: "int \<Rightarrow> rat" where
  "pow2 e = (if 0 \<le> e then 2 ^ nat e else 1 / 2 ^ nat (- e))"

definition fsign :: "float \<Rightarrow> bool" where
  "fsign f = (2 ^ 31 \<le> uint f)"

definition fexpo :: "float \<Rightarrow> int" where
  "fexpo f = (uint f div 2 ^ 23) mod 2 ^ 8"

definition ffrac :: "float \<Rightarrow> int" where
  "ffrac f = uint f mod 2 ^ 23"

definition is_nan :: "float \<Rightarrow> bool" where
  "is_nan f = (fexpo f = 255 \<and> ffrac f \<noteq> 0)"

definition is_inf :: "float \<Rightarrow> bool" where
  "is_inf f = (fexpo f = 255 \<and> ffrac f = 0)"

definition is_finite :: "float \<Rightarrow> bool" where
  "is_finite f = (fexpo f < 255)"

text \<open>The magnitude and the value of a finite float.\<close>

definition fmag :: "float \<Rightarrow> rat" where
  "fmag f = (if fexpo f = 0 then of_int (ffrac f) * pow2 (- 149)
             else of_int (2 ^ 23 + ffrac f) * pow2 (fexpo f - 150))"

definition valof :: "float \<Rightarrow> rat" where
  "valof f = (if fsign f then - fmag f else fmag f)"

text \<open>Rounding a rational to the nearest integer, ties to the even one.\<close>

definition round_even :: "rat \<Rightarrow> int" where
  "round_even q = (let f = \<lfloor>q\<rfloor>; r = q - of_int f in
     if r < 1 / 2 then f else if 1 / 2 < r then f + 1 else if even f then f else f + 1)"

text \<open>
  \<open>bexp q lo hi\<close> searches \<open>lo \<le> e < hi\<close> for the largest \<open>e\<close> with \<open>2\<^sup>e \<le> q\<close>, and is
  \<open>lo\<close> when there is none: the exponent of the binade of \<open>q\<close>, with the subnormal range
  clamped to the smallest normal exponent.
\<close>

function bexp :: "rat \<Rightarrow> int \<Rightarrow> int \<Rightarrow> int" where
  "bexp q lo hi = (if hi - lo \<le> 1 then lo
     else if pow2 ((lo + hi) div 2) \<le> q then bexp q ((lo + hi) div 2) hi
     else bexp q lo ((lo + hi) div 2))"
  by pat_completeness auto
termination
  by (relation "measure (\<lambda>(q, lo, hi). nat (hi - lo))") auto

declare bexp.simps [simp del]

text \<open>The 32-bit pattern with sign \<open>s\<close> and the 31 low bits \<open>b\<close>.\<close>

definition fbits :: "bool \<Rightarrow> int \<Rightarrow> float" where
  "fbits s b = word_of_int ((if s then 2 ^ 31 else 0) + b)"

text \<open>
  The low 31 bits of the float nearest to \<open>q \<ge> 0\<close>. In the binade with exponent \<open>e\<close> the
  floats are the multiples of \<open>2\<^sup>e\<^sup>-\<^sup>2\<^sup>3\<close>; the biased exponent and the fraction of the
  \<open>k\<close>-th multiple are together \<open>(e + 126) * 2\<^sup>2\<^sup>3 + k\<close>, also when \<open>k = 2\<^sup>2\<^sup>4\<close> carries into
  the next binade. Beyond the largest finite float the result is infinity.
\<close>

definition round_mag :: "rat \<Rightarrow> int" where
  "round_mag q = (let e = bexp q (- 126) 128; k = round_even (q / pow2 (e - 23)) in
     if e = 127 \<and> 2 ^ 24 \<le> k then 255 * 2 ^ 23 else (e + 126) * 2 ^ 23 + k)"

text \<open>
  The same rounding as a value: \<open>fexp q\<close> is the exponent that \<open>round_mag\<close> searches for, and
  \<open>rval q\<close> is the multiple of \<open>2\<^sup>e\<^sup>-\<^sup>2\<^sup>3\<close> nearest to \<open>q\<close>.
\<close>

definition fexp :: "rat \<Rightarrow> int" where
  "fexp q = bexp q (- 126) 128"

definition rval :: "rat \<Rightarrow> rat" where
  "rval q = of_int (round_even (q / pow2 (fexp q - 23))) * pow2 (fexp q - 23)"

definition fround :: "bool \<Rightarrow> rat \<Rightarrow> float" where
  "fround s q = fbits s (round_mag q)"

definition fnan :: float where
  "fnan = fbits False (255 * 2 ^ 23 + 2 ^ 22)"

definition finf :: "bool \<Rightarrow> float" where
  "finf s = fbits s (255 * 2 ^ 23)"

definition fzero :: "bool \<Rightarrow> float" where
  "fzero s = fbits s 0"

definition fmul :: "float \<Rightarrow> float \<Rightarrow> float" where
  "fmul x y = (let s = (fsign x \<noteq> fsign y) in
     if is_nan x \<or> is_nan y then fnan
     else if is_inf x \<or> is_inf y then
       (if (is_finite x \<and> fmag x = 0) \<or> (is_finite y \<and> fmag y = 0) then fnan else finf s)
     else fround s (fmag x * fmag y))"

definition fadd :: "float \<Rightarrow> float \<Rightarrow> float" where
  "fadd x y = (if is_nan x \<or> is_nan y then fnan
     else if is_inf x then (if is_inf y \<and> fsign x \<noteq> fsign y then fnan else x)
     else if is_inf y then y
     else (let r = valof x + valof y in
       if r = 0 then fzero (fsign x \<and> fsign y) else fround (r < 0) \<bar>r\<bar>))"

definition fneg :: "float \<Rightarrow> float" where
  "fneg x = fbits (\<not> fsign x) (uint x mod 2 ^ 31)"

definition fsub :: "float \<Rightarrow> float \<Rightarrow> float" where
  "fsub x y = fadd x (fneg y)"

definition fdiv :: "float \<Rightarrow> float \<Rightarrow> float" where
  "fdiv x y = (let s = (fsign x \<noteq> fsign y) in
     if is_nan x \<or> is_nan y then fnan
     else if is_inf x then (if is_inf y then fnan else finf s)
     else if is_inf y then fzero s
     else if fmag y = 0 then (if fmag x = 0 then fnan else finf s)
     else fround s (fmag x / fmag y))"

text \<open>The conversion of an \<^verbatim>\<open>int\<close> to \<^verbatim>\<open>float\<close>, rounding as the arithmetic does.\<close>

definition float_of_int :: "int \<Rightarrow> float" where
  "float_of_int i = fround (i < 0) (of_int \<bar>i\<bar>)"

text \<open>The comparison \<^verbatim>\<open>==\<close> of two floats: a NaN equals nothing, and \<open>-0\<close> equals \<open>+0\<close>.\<close>

definition feq :: "float \<Rightarrow> float \<Rightarrow> bool" where
  "feq x y = (\<not> is_nan x \<and> \<not> is_nan y \<and>
     (x = y \<or> (is_finite x \<and> is_finite y \<and> fmag x = 0 \<and> fmag y = 0)))"

section \<open>The free store\<close>

text \<open>
  \<^verbatim>\<open>new float[k]\<close> and \<^verbatim>\<open>delete[]\<close> work on a store of blocks. A pointer is the index of its
  block, so the block a \<^verbatim>\<open>new\<close> returns is distinct from every block handed out before. A
  cell of a fresh block holds no value until it is written; reading it, reading or writing
  outside a block, and using a released block are undefined behaviour in C++ and are errors
  here. \<^verbatim>\<open>new\<close> throws \<^verbatim>\<open>std::bad_array_new_length\<close> when the byte size \<open>4 * k\<close> does not fit
  \<^verbatim>\<open>size_t\<close>, and \<^verbatim>\<open>std::bad_alloc\<close> when the store cannot hold \<open>k\<close> more cells: \<open>limit\<close> is
  the number of cells the platform's store can hold.
\<close>

datatype error =
  OutOfBounds | Uninitialized | InvalidPointer | BadArrayNewLength | BadAlloc

type_synonym buffer = "float option list"

record heap =
  blocks :: "buffer option list"
  limit :: nat

type_synonym loc = "nat \<times> size_t"

definition live :: "heap \<Rightarrow> nat" where
  "live h = sum_list (map (\<lambda>b. case b of None \<Rightarrow> 0 | Some buf \<Rightarrow> length buf) (blocks h))"

definition new_float_array :: "heap \<Rightarrow> size_t \<Rightarrow> error + nat \<times> heap" where
  "new_float_array h k =
     (if 2 ^ 64 \<le> 4 * unat k then Inl BadArrayNewLength
      else if limit h < live h + unat k then Inl BadAlloc
      else Inr (length (blocks h),
                h\<lparr>blocks := blocks h @ [Some (replicate (unat k) None)]\<rparr>))"

definition delete_array :: "heap \<Rightarrow> nat \<Rightarrow> error + heap" where
  "delete_array h p =
     (if p < length (blocks h) then
        (case blocks h ! p of
           None \<Rightarrow> Inl InvalidPointer
         | Some buf \<Rightarrow> Inr (h\<lparr>blocks := (blocks h)[p := None]\<rparr>))
      else Inl InvalidPointer)"

definition load :: "heap \<Rightarrow> loc \<Rightarrow> error + float" where
  "load h l =
     (if fst l < length (blocks h) then
        (case blocks h ! fst l of
           None \<Rightarrow> Inl InvalidPointer
         | Some buf \<Rightarrow>
             if unat (snd l) < length buf then
               (case buf ! unat (snd l) of
                  None \<Rightarrow> Inl Uninitialized
                | Some v \<Rightarrow> Inr v)
             else Inl OutOfBounds)
      else Inl InvalidPointer)"

definition store :: "heap \<Rightarrow> loc \<Rightarrow> float \<Rightarrow> error + heap" where
  "store h l v =
     (if fst l < length (blocks h) then
        (case blocks h ! fst l of
           None \<Rightarrow> Inl InvalidPointer
         | Some buf \<Rightarrow>
             if unat (snd l) < length buf then
               Inr (h\<lparr>blocks := (blocks h)[fst l := Some (buf[unat (snd l) := Some v])]\<rparr>)
             else Inl OutOfBounds)
      else Inl InvalidPointer)"

section \<open>class Matrix\<close>

text \<open>
  \<^verbatim>\<open>float *data; size_t n, m;\<close> The constructor allocates \<open>r * c\<close> floats, the product
  taken in \<^verbatim>\<open>size_t\<close>; the destructor releases them. The non-const \<^verbatim>\<open>operator()\<close> returns the
  reference \<^verbatim>\<open>data[x*m+y]\<close>, a location that the caller then reads or assigns; the const one
  returns the value stored there.
\<close>

record Matrix =
  data :: nat
  n :: size_t
  m :: size_t

definition Matrix_ctor :: "heap \<Rightarrow> size_t \<Rightarrow> size_t \<Rightarrow> error + Matrix \<times> heap" where
  "Matrix_ctor h r c =
     (case new_float_array h (r * c) of
        Inl e \<Rightarrow> Inl e
      | Inr (p, h') \<Rightarrow> Inr (\<lparr>data = p, n = r, m = c\<rparr>, h'))"

definition Matrix_dtor :: "heap \<Rightarrow> Matrix \<Rightarrow> error + heap" where
  "Matrix_dtor h a = delete_array h (data a)"

definition Matrix_call :: "Matrix \<Rightarrow> size_t \<Rightarrow> size_t \<Rightarrow> loc" where
  "Matrix_call a x y = (data a, x * m a + y)"

definition Matrix_call_const :: "heap \<Rightarrow> Matrix \<Rightarrow> size_t \<Rightarrow> size_t \<Rightarrow> error + float" where
  "Matrix_call_const h a x y = load h (data a, x * m a + y)"

section \<open>dot\<close>

lemma size_t_inc:
  fixes k :: size_t
  assumes "k < bound"
  shows "unat (k + 1) = Suc (unat k)"
proof -
  have "unat k < unat bound"
    using assms by (simp add: word_less_nat_alt)
  moreover have "unat bound < 2 ^ 64"
    using unsigned_less [of bound] by simp
  ultimately have "unat k + 1 < 2 ^ 64"
    by linarith
  then show ?thesis
    by (simp add: unat_word_ariths)
qed

text \<open>
  The three loops of \<^verbatim>\<open>dot\<close>, innermost first. \<open>dot_k\<close> is
  \<^verbatim>\<open>for (k = ...; k < a.m; ++k) s += a(i, k) * b(k, j);\<close> from the current \<open>k\<close> and \<open>s\<close>;
  \<open>dot_j\<close> is the loop over \<open>j\<close> that stores each sum into \<open>c(i, j)\<close>; \<open>dot_i\<close> is the loop
  over the rows.
\<close>

function dot_k :: "heap \<Rightarrow> Matrix \<Rightarrow> Matrix \<Rightarrow> size_t \<Rightarrow> size_t \<Rightarrow> size_t \<Rightarrow> float
    \<Rightarrow> error + float" where
  "dot_k h a b i j k s =
     (if k < m a then
        (case Matrix_call_const h a i k of
           Inl e \<Rightarrow> Inl e
         | Inr x \<Rightarrow>
             (case Matrix_call_const h b k j of
                Inl e \<Rightarrow> Inl e
              | Inr y \<Rightarrow> dot_k h a b i j (k + 1) (fadd s (fmul x y))))
      else Inr s)"
  by pat_completeness auto
termination
  by (relation "measure (\<lambda>(h, a, b, i, j, k, s). unat (m a) - unat k)")
     (auto simp: size_t_inc word_less_nat_alt)

declare dot_k.simps [simp del]

function dot_j :: "heap \<Rightarrow> Matrix \<Rightarrow> Matrix \<Rightarrow> Matrix \<Rightarrow> size_t \<Rightarrow> size_t \<Rightarrow> error + heap" where
  "dot_j h a b c i j =
     (if j < m b then
        (case dot_k h a b i j 0 (float_of_int 0) of
           Inl e \<Rightarrow> Inl e
         | Inr s \<Rightarrow>
             (case store h (Matrix_call c i j) s of
                Inl e \<Rightarrow> Inl e
              | Inr h' \<Rightarrow> dot_j h' a b c i (j + 1)))
      else Inr h)"
  by pat_completeness auto
termination
  by (relation "measure (\<lambda>(h, a, b, c, i, j). unat (m b) - unat j)")
     (auto simp: size_t_inc word_less_nat_alt)

declare dot_j.simps [simp del]

function dot_i :: "heap \<Rightarrow> Matrix \<Rightarrow> Matrix \<Rightarrow> Matrix \<Rightarrow> size_t \<Rightarrow> error + heap" where
  "dot_i h a b c i =
     (if i < n a then
        (case dot_j h a b c i 0 of
           Inl e \<Rightarrow> Inl e
         | Inr h' \<Rightarrow> dot_i h' a b c (i + 1))
      else Inr h)"
  by pat_completeness auto
termination
  by (relation "measure (\<lambda>(h, a, b, c, i). unat (n a) - unat i)")
     (auto simp: size_t_inc word_less_nat_alt)

declare dot_i.simps [simp del]

text \<open>
  \<^verbatim>\<open>Matrix c(a.n, b.m);\<close> followed by the loops: the store as it is just before
  \<^verbatim>\<open>return\<close>, with the product still in \<open>c\<close>.
\<close>

definition dot_product :: "heap \<Rightarrow> Matrix \<Rightarrow> Matrix \<Rightarrow> error + Matrix \<times> heap" where
  "dot_product h a b =
     (case Matrix_ctor h (n a) (m b) of
        Inl e \<Rightarrow> Inl e
      | Inr (c, h1) \<Rightarrow>
          (case dot_i h1 a b c 0 of
             Inl e \<Rightarrow> Inl e
           | Inr h2 \<Rightarrow> Inr (c, h2)))"

text \<open>\<^verbatim>\<open>return c(0, 0);\<close> reads the element, then \<open>c\<close> goes out of scope.\<close>

definition dot :: "heap \<Rightarrow> Matrix \<Rightarrow> Matrix \<Rightarrow> error + float \<times> heap" where
  "dot h a b =
     (case dot_product h a b of
        Inl e \<Rightarrow> Inl e
      | Inr (c, h2) \<Rightarrow>
          (case load h2 (Matrix_call c 0 0) of
             Inl e \<Rightarrow> Inl e
           | Inr r \<Rightarrow>
               (case Matrix_dtor h2 c of
                  Inl e \<Rightarrow> Inl e
                | Inr h3 \<Rightarrow> Inr (r, h3))))"

section \<open>The random filler\<close>

text \<open>
  \<^verbatim>\<open>rand()\<close> and \<^verbatim>\<open>RAND_MAX\<close> belong to the C library. The generator is process-wide state:
  after \<^verbatim>\<open>srand\<close> it yields a fixed sequence of \<^verbatim>\<open>int\<close>s. The embedding takes that sequence as
  the parameter \<open>rand\<close> and keeps as state the number \<open>g\<close> of calls made so far, so that the
  next call returns \<open>rand g\<close>; \<^verbatim>\<open>RAND_MAX\<close> is a parameter too.

  \<open>rand_float\<close> is the expression \<^verbatim>\<open>rand() / static_cast<float>(RAND_MAX) * 2 - 1\<close> for the
  value \<open>r\<close> that \<^verbatim>\<open>rand()\<close> returned: \<open>r\<close>, \<open>2\<close> and \<open>1\<close> are converted to \<^verbatim>\<open>float\<close>, and the
  division, the product and the difference are each rounded to \<^verbatim>\<open>float\<close>.
\<close>

definition rand_float :: "int \<Rightarrow> int \<Rightarrow> float" where
  "rand_float RAND_MAX r =
     fsub (fmul (fdiv (float_of_int r) (float_of_int RAND_MAX)) (float_of_int 2))
       (float_of_int 1)"

function fill_rand_j :: "int \<Rightarrow> (nat \<Rightarrow> int) \<Rightarrow> heap \<Rightarrow> nat \<Rightarrow> Matrix \<Rightarrow> size_t \<Rightarrow> size_t
    \<Rightarrow> error + heap \<times> nat" where
  "fill_rand_j RAND_MAX rand h g a i j =
     (if j < m a then
        (case store h (Matrix_call a i j) (rand_float RAND_MAX (rand g)) of
           Inl e \<Rightarrow> Inl e
         | Inr h' \<Rightarrow> fill_rand_j RAND_MAX rand h' (Suc g) a i (j + 1))
      else Inr (h, g))"
  by pat_completeness auto
termination
  by (relation "measure (\<lambda>(RAND_MAX, rand, h, g, a, i, j). unat (m a) - unat j)")
     (auto simp: size_t_inc word_less_nat_alt)

declare fill_rand_j.simps [simp del]

function fill_rand_i :: "int \<Rightarrow> (nat \<Rightarrow> int) \<Rightarrow> heap \<Rightarrow> nat \<Rightarrow> Matrix \<Rightarrow> size_t
    \<Rightarrow> error + heap \<times> nat" where
  "fill_rand_i RAND_MAX rand h g a i =
     (if i < n a then
        (case fill_rand_j RAND_MAX rand h g a i 0 of
           Inl e \<Rightarrow> Inl e
         | Inr (h', g') \<Rightarrow> fill_rand_i RAND_MAX rand h' g' a (i + 1))
      else Inr (h, g))"
  by pat_completeness auto
termination
  by (relation "measure (\<lambda>(RAND_MAX, rand, h, g, a, i). unat (n a) - unat i)")
     (auto simp: size_t_inc word_less_nat_alt)

declare fill_rand_i.simps [simp del]

definition fill_rand :: "int \<Rightarrow> (nat \<Rightarrow> int) \<Rightarrow> heap \<Rightarrow> nat \<Rightarrow> Matrix \<Rightarrow> error + heap \<times> nat" where
  "fill_rand RAND_MAX rand h g a = fill_rand_i RAND_MAX rand h g a 0"

section \<open>main\<close>

text \<open>
  \<^verbatim>\<open>const int n = 100, p = 200, m = 50, T = 100;\<close> The names \<open>n\<close> and \<open>m\<close> are taken by the
  fields of \<open>Matrix\<close>, so the constants of \<^verbatim>\<open>main\<close> carry its name.
\<close>

definition main_n :: int where "main_n = 100"
definition main_p :: int where "main_p = 200"
definition main_m :: int where "main_m = 50"
definition main_T :: int where "main_T = 100"

text \<open>
  \<^verbatim>\<open>for (int i = 0; i < T; ++i) s += dot(a, b);\<close> from the current \<open>i\<close> and \<open>s\<close>. The counter
  stays below \<open>T\<close>, far from the range of \<^verbatim>\<open>int\<close>.
\<close>

function main_loop :: "heap \<Rightarrow> Matrix \<Rightarrow> Matrix \<Rightarrow> int \<Rightarrow> float \<Rightarrow> error + float \<times> heap" where
  "main_loop h a b i s =
     (if i < main_T then
        (case dot h a b of
           Inl e \<Rightarrow> Inl e
         | Inr (d, h') \<Rightarrow> main_loop h' a b (i + 1) (fadd s d))
      else Inr (s, h))"
  by pat_completeness auto
termination
  by (relation "measure (\<lambda>(h, a, b, i, s). nat (main_T - i))") auto

declare main_loop.simps [simp del]

text \<open>
  \<^verbatim>\<open>main\<close> up to the value of \<open>s\<close> and the store it leaves: the two matrices are constructed
  (their \<^verbatim>\<open>int\<close> dimensions converted to \<^verbatim>\<open>size_t\<close>), filled, multiplied \<open>T\<close> times, and destroyed
  in reverse order. The seeding by \<^verbatim>\<open>srand(time(NULL))\<close> is what fixes the sequence \<open>rand\<close>.
  The two clock readings and the two output statements use neither the store nor the
  generator and are not part of the embedding.
\<close>

definition main :: "int \<Rightarrow> (nat \<Rightarrow> int) \<Rightarrow> heap \<Rightarrow> error + float \<times> heap" where
  "main RAND_MAX rand h0 =
     (case Matrix_ctor h0 (word_of_int main_n) (word_of_int main_p) of
        Inl e \<Rightarrow> Inl e
      | Inr (a, h1) \<Rightarrow>
     (case Matrix_ctor h1 (word_of_int main_p) (word_of_int main_m) of
        Inl e \<Rightarrow> Inl e
      | Inr (b, h2) \<Rightarrow>
     (case fill_rand RAND_MAX rand h2 0 a of
        Inl e \<Rightarrow> Inl e
      | Inr (h3, g1) \<Rightarrow>
     (case fill_rand RAND_MAX rand h3 g1 b of
        Inl e \<Rightarrow> Inl e
      | Inr (h4, g2) \<Rightarrow>
     (case main_loop h4 a b 0 (float_of_int 0) of
        Inl e \<Rightarrow> Inl e
      | Inr (s, h5) \<Rightarrow>
     (case Matrix_dtor h5 b of
        Inl e \<Rightarrow> Inl e
      | Inr h6 \<Rightarrow>
     (case Matrix_dtor h6 a of
        Inl e \<Rightarrow> Inl e
      | Inr h7 \<Rightarrow> Inr (s, h7))))))))"

section \<open>Specification vocabulary\<close>

text \<open>
  \<open>shaped h a\<close>: the buffer of \<open>a\<close> is a block of the store with one cell for each of its
  \<open>n * m\<close> elements, of a size that \<^verbatim>\<open>new\<close> can have returned. \<open>valid_matrix h a\<close>: moreover
  every cell has been written. \<open>elem h a x y\<close> is the value that \<^verbatim>\<open>a(x, y)\<close> reads.
\<close>

definition shaped :: "heap \<Rightarrow> Matrix \<Rightarrow> bool" where
  "shaped h a =
     (data a < length (blocks h) \<and>
      (case blocks h ! data a of
         None \<Rightarrow> False
       | Some buf \<Rightarrow> length buf = unat (n a) * unat (m a) \<and> length buf < 2 ^ 62))"

definition valid_matrix :: "heap \<Rightarrow> Matrix \<Rightarrow> bool" where
  "valid_matrix h a =
     (shaped h a \<and>
      (case blocks h ! data a of
         None \<Rightarrow> False
       | Some buf \<Rightarrow> list_all (\<lambda>c. c \<noteq> None) buf))"

definition elem :: "heap \<Rightarrow> Matrix \<Rightarrow> size_t \<Rightarrow> size_t \<Rightarrow> float" where
  "elem h a x y = projr (Matrix_call_const h a x y)"

text \<open>
  The sum as the specification words it: starting from zero, the products
  \<open>A(i,k) * B(k,j)\<close> are added for \<open>k\<close> ascending from \<open>0\<close> to \<open>p - 1\<close>, each product and each
  sum rounded to single precision.
\<close>

definition dot_sum :: "(size_t \<Rightarrow> size_t \<Rightarrow> float) \<Rightarrow> (size_t \<Rightarrow> size_t \<Rightarrow> float) \<Rightarrow>
    size_t \<Rightarrow> size_t \<Rightarrow> size_t \<Rightarrow> float" where
  "dot_sum A B p i j =
     foldl (\<lambda>s k. fadd s (fmul (A i k) (B k j))) (float_of_int 0) (map of_nat [0..<unat p])"

text \<open>\<open>reads h a A\<close>: every element \<open>a(x, y)\<close> in range reads the value \<open>A x y\<close>.\<close>

definition reads :: "heap \<Rightarrow> Matrix \<Rightarrow> (size_t \<Rightarrow> size_t \<Rightarrow> float) \<Rightarrow> bool" where
  "reads h a A = (\<forall>x y. x < n a \<longrightarrow> y < m a \<longrightarrow> Matrix_call_const h a x y = Inr (A x y))"

text \<open>
  \<open>buffer_length h a\<close> is the number of cells of the buffer of \<open>a\<close>, while the buffer is
  live. \<open>later a h h'\<close>: the store \<open>h'\<close> is reached from \<open>h\<close> by assignments to elements,
  allocations and releases, none of which releases the buffer of \<open>a\<close> itself.
\<close>

definition buffer_length :: "heap \<Rightarrow> Matrix \<Rightarrow> nat option" where
  "buffer_length h a =
     (if data a < length (blocks h) then map_option length (blocks h ! data a) else None)"

inductive later :: "Matrix \<Rightarrow> heap \<Rightarrow> heap \<Rightarrow> bool" for a where
  now: "later a h h"
| assign: "later a h h1 \<Longrightarrow> store h1 l v = Inr h2 \<Longrightarrow> later a h h2"
| allocate: "later a h h1 \<Longrightarrow> new_float_array h1 k = Inr (p, h2) \<Longrightarrow> later a h h2"
| release: "later a h h1 \<Longrightarrow> delete_array h1 p = Inr h2 \<Longrightarrow> p \<noteq> data a \<Longrightarrow> later a h h2"

text \<open>\<open>writes h ws\<close>: the assignments \<open>ws\<close>, each a location and a value, made in order.\<close>

fun writes :: "heap \<Rightarrow> (loc \<times> float) list \<Rightarrow> error + heap" where
  "writes h [] = Inr h"
| "writes h (lv # ws) =
     (case store h (fst lv) (snd lv) of Inl e \<Rightarrow> Inl e | Inr h' \<Rightarrow> writes h' ws)"

text \<open>
  \<open>same_outside p h h'\<close>: the stores \<open>h\<close> and \<open>h'\<close> differ at most in the contents of block
  \<open>p\<close>, which has kept its length.
\<close>

definition same_outside :: "nat \<Rightarrow> heap \<Rightarrow> heap \<Rightarrow> bool" where
  "same_outside p h h' =
     (limit h' = limit h \<and> length (blocks h') = length (blocks h) \<and>
      (\<forall>q. q \<noteq> p \<longrightarrow> blocks h' ! q = blocks h ! q) \<and>
      map_option length (blocks h' ! p) = map_option length (blocks h ! p))"

text \<open>
  One pass of the loop of \<^verbatim>\<open>main\<close> as the specification words it: invoke the kernel on
  \<open>(a, b)\<close> and add the scalar it returns to the accumulator; a failure of the kernel ends
  the run.
\<close>

definition kernel_step :: "Matrix \<Rightarrow> Matrix \<Rightarrow> error + float \<times> heap \<Rightarrow> error + float \<times> heap" where
  "kernel_step a b r =
     (case r of
        Inl e \<Rightarrow> Inl e
      | Inr (s, h) \<Rightarrow>
          (case dot h a b of
             Inl e \<Rightarrow> Inl e
           | Inr (d, h') \<Rightarrow> Inr (fadd s d, h')))"

section \<open>Example stores\<close>

text \<open>
  The matrices \<open>[[1,2],[3,4]]\<close> and \<open>[[5,6],[7,8]]\<close> in a store with room for twelve cells;
  the result matrix of \<^verbatim>\<open>dot\<close>, the store just after its construction, and the store just
  before \<^verbatim>\<open>dot\<close> returns.
\<close>

definition heap_2x2 :: heap where
  "heap_2x2 = \<lparr>blocks = [Some (map (\<lambda>i. Some (float_of_int i)) [1, 2, 3, 4]),
                          Some (map (\<lambda>i. Some (float_of_int i)) [5, 6, 7, 8])],
               limit = 12\<rparr>"

definition a_2x2 :: Matrix where
  "a_2x2 = \<lparr>data = 0, n = 2, m = 2\<rparr>"

definition b_2x2 :: Matrix where
  "b_2x2 = \<lparr>data = 1, n = 2, m = 2\<rparr>"

definition c_2x2 :: Matrix where
  "c_2x2 = \<lparr>data = 2, n = 2, m = 2\<rparr>"

definition heap_2x2_new :: heap where
  "heap_2x2_new = heap_2x2\<lparr>blocks := blocks heap_2x2 @ [Some (replicate 4 None)]\<rparr>"

definition heap_2x2_c :: heap where
  "heap_2x2_c = heap_2x2\<lparr>blocks := blocks heap_2x2 @
     [Some (map (\<lambda>i. Some (float_of_int i)) [19, 22, 43, 50])]\<rparr>"

text \<open>
  A column of \<open>2\<^sup>3\<^sup>2\<close> ones and a row of \<open>2\<^sup>3\<^sup>2\<close> ones (16 GiB each). Their product has
  \<open>2\<^sup>6\<^sup>4\<close> elements, and \<open>a.n * b.m\<close> is \<open>0\<close> in \<^verbatim>\<open>size_t\<close>: \<open>c_wide\<close> and \<open>heap_wide_c\<close> are
  what \<^verbatim>\<open>Matrix c(a.n, b.m)\<close> makes of it.
\<close>

definition heap_wide :: heap where
  "heap_wide = \<lparr>blocks = [Some (replicate (2 ^ 32) (Some (float_of_int 1))),
                           Some (replicate (2 ^ 32) (Some (float_of_int 1)))],
                limit = 2 ^ 34\<rparr>"

definition a_wide :: Matrix where
  "a_wide = \<lparr>data = 0, n = 2 ^ 32, m = 1\<rparr>"

definition b_wide :: Matrix where
  "b_wide = \<lparr>data = 1, n = 1, m = 2 ^ 32\<rparr>"

definition c_wide :: Matrix where
  "c_wide = \<lparr>data = 2, n = 2 ^ 32, m = 2 ^ 32\<rparr>"

definition heap_wide_c :: heap where
  "heap_wide_c = heap_wide\<lparr>blocks := blocks heap_wide @ [Some []]\<rparr>"

text \<open>
  The stores in which the two operands of the \<open>2 \<times> 2\<close> example are constructed: the empty
  store, the store with the first matrix, and the store with both, nothing written yet.
\<close>

definition heap_empty :: heap where
  "heap_empty = \<lparr>blocks = [], limit = 12\<rparr>"

definition heap_2x2_a :: heap where
  "heap_2x2_a = \<lparr>blocks = [Some (replicate 4 None)], limit = 12\<rparr>"

definition heap_2x2_ab :: heap where
  "heap_2x2_ab = \<lparr>blocks = [Some (replicate 4 None), Some (replicate 4 None)], limit = 12\<rparr>"

text \<open>
  A matrix of \<open>2\<^sup>3\<^sup>2 + 1\<close> rows and \<open>2\<^sup>3\<^sup>2\<close> columns. The constructor computes
  \<open>(2\<^sup>3\<^sup>2 + 1) * 2\<^sup>3\<^sup>2 = 2\<^sup>6\<^sup>4 + 2\<^sup>3\<^sup>2\<close> in \<^verbatim>\<open>size_t\<close>, which is \<open>2\<^sup>3\<^sup>2\<close>: the buffer has \<open>2\<^sup>3\<^sup>2\<close>
  cells. \<open>heap_tall_0\<close> is the store before the construction, \<open>heap_tall_new\<close> the store
  after it, and \<open>heap_tall v\<close> the store once \<open>v\<close> has been written to the first cell.
\<close>

definition heap_tall_0 :: heap where
  "heap_tall_0 = \<lparr>blocks = [], limit = 2 ^ 32\<rparr>"

definition a_tall :: Matrix where
  "a_tall = \<lparr>data = 0, n = 2 ^ 32 + 1, m = 2 ^ 32\<rparr>"

definition heap_tall_new :: heap where
  "heap_tall_new = \<lparr>blocks = [Some (replicate (2 ^ 32) None)], limit = 2 ^ 32\<rparr>"

definition heap_tall :: "float \<Rightarrow> heap" where
  "heap_tall v = \<lparr>blocks = [Some ((replicate (2 ^ 32) None)[0 := Some v])], limit = 2 ^ 32\<rparr>"

text \<open>
  A matrix of \<open>2\<close> rows and \<open>2\<^sup>6\<^sup>3\<close> columns and one of \<open>2\<^sup>6\<^sup>3\<close> rows and \<open>2\<close> columns. For both
  the constructor computes \<open>2\<^sup>6\<^sup>4\<close> in \<^verbatim>\<open>size_t\<close>, which is \<open>0\<close>: the buffers have no cell.
\<close>

definition heap_flat :: heap where
  "heap_flat = \<lparr>blocks = [Some [], Some []], limit = 4\<rparr>"

definition a_flat :: Matrix where
  "a_flat = \<lparr>data = 0, n = 2, m = 2 ^ 63\<rparr>"

definition b_flat :: Matrix where
  "b_flat = \<lparr>data = 1, n = 2 ^ 63, m = 2\<rparr>"



text \<open>
  The matrix \<open>[[1,2],[3,4]]\<close> beside the \<open>2 \<times> 2\<close> identity; and the \<open>1 \<times> 2\<close> matrix
  \<open>[[\<infinity>, 0]]\<close> beside the identity, with the result matrix and the store that the kernel
  makes of them.
\<close>

definition heap_id :: heap where
  "heap_id = \<lparr>blocks = [Some (map (\<lambda>i. Some (float_of_int i)) [1, 2, 3, 4]),
                         Some (map (\<lambda>i. Some (float_of_int i)) [1, 0, 0, 1])],
              limit = 12\<rparr>"

definition id_2x2 :: Matrix where
  "id_2x2 = \<lparr>data = 1, n = 2, m = 2\<rparr>"

definition heap_inf :: heap where
  "heap_inf = \<lparr>blocks = [Some [Some (finf False), Some (float_of_int 0)],
                          Some (map (\<lambda>i. Some (float_of_int i)) [1, 0, 0, 1])],
               limit = 8\<rparr>"

definition a_inf :: Matrix where
  "a_inf = \<lparr>data = 0, n = 1, m = 2\<rparr>"

definition c_inf :: Matrix where
  "c_inf = \<lparr>data = 2, n = 1, m = 2\<rparr>"

definition heap_inf_c :: heap where
  "heap_inf_c = heap_inf\<lparr>blocks := blocks heap_inf @ [Some [Some (finf False), Some fnan]]\<rparr>"



definition rand_count :: "nat \<Rightarrow> int" where
  "rand_count k = int k"

text \<open>An empty store with room for the three matrices of \<^verbatim>\<open>main\<close>.\<close>

definition heap_main :: heap where
  "heap_main = \<lparr>blocks = [], limit = 35000\<rparr>"

section \<open>Properties of the arithmetic\<close>

lemma pow2_powi: "pow2 e = 2 powi e"
  by (simp add: pow2_def power_int_def field_simps)

lemma pow2_pos [simp]: "0 < pow2 e"
  by (simp add: pow2_powi)

lemma pow2_nonneg [simp]: "0 \<le> pow2 e"
  using pow2_pos [of e] by (rule less_imp_le)

lemma pow2_ne_0 [simp]: "pow2 e \<noteq> 0"
  by (simp add: pow2_powi)

lemma pow2_add: "pow2 (a + b) = pow2 a * pow2 b"
  by (simp add: pow2_powi power_int_add)

lemma pow2_diff: "pow2 (a - b) = pow2 a / pow2 b"
  by (simp add: pow2_powi power_int_diff)

lemma pow2_mono: "a \<le> b \<Longrightarrow> pow2 a \<le> pow2 b"
  by (simp add: pow2_powi power_int_increasing)

lemma pow2_strict_mono: "a < b \<Longrightarrow> pow2 a < pow2 b"
  by (simp add: pow2_powi power_int_strict_increasing)


lemma pow2_less_iff: "pow2 a < pow2 b \<longleftrightarrow> a < b"
  using pow2_mono [of b a] pow2_strict_mono [of a b] by (auto simp: not_le [symmetric])

lemma pow2_nat: "0 \<le> e \<Longrightarrow> pow2 e = 2 ^ nat e"
  by (simp add: pow2_def)

lemma pow2_24: "2 ^ 24 * pow2 (e - 23) = pow2 (e + 1)"
proof -
  have "pow2 (e + 1) = pow2 (24 + (e - 23))"
    by (rule arg_cong [where f = pow2]) simp
  also have "\<dots> = pow2 24 * pow2 (e - 23)"
    by (rule pow2_add)
  also have "pow2 24 = 2 ^ 24"
    by (simp add: pow2_def)
  finally show ?thesis
    by simp
qed

lemma pow2_23: "2 ^ 23 * pow2 (e - 23) = pow2 e"
proof -
  have "pow2 e = pow2 (23 + (e - 23))"
    by (rule arg_cong [where f = pow2]) simp
  also have "\<dots> = pow2 23 * pow2 (e - 23)"
    by (rule pow2_add)
  also have "pow2 23 = 2 ^ 23"
    by (simp add: pow2_def)
  finally show ?thesis
    by simp
qed


lemma bexp_spec:
  "lo < hi \<Longrightarrow> lo0 \<le> lo \<Longrightarrow> hi \<le> hi0 \<Longrightarrow>
   (lo = lo0 \<or> pow2 lo \<le> q) \<Longrightarrow> (hi = hi0 \<or> q < pow2 hi) \<Longrightarrow>
   lo0 \<le> bexp q lo hi \<and> bexp q lo hi < hi0 \<and>
   (bexp q lo hi = lo0 \<or> pow2 (bexp q lo hi) \<le> q) \<and>
   (bexp q lo hi + 1 = hi0 \<or> q < pow2 (bexp q lo hi + 1))"
proof (induction q lo hi rule: bexp.induct)
  case (1 q lo hi)
  show ?case
  proof (cases "hi - lo \<le> 1")
    case True
    then have "hi = lo + 1"
      using "1.prems"(1) by simp
    moreover have "bexp q lo hi = lo"
      using True by (subst bexp.simps) simp
    ultimately show ?thesis
      using "1.prems" by auto
  next
    case False
    define mid where "mid = (lo + hi) div 2"
    have mid: "lo < mid" "mid < hi"
      using False by (simp_all add: mid_def)
    show ?thesis
    proof (cases "pow2 mid \<le> q")
      case True
      have "bexp q lo hi = bexp q mid hi"
        using False True by (subst bexp.simps) (simp add: mid_def)
      moreover have "lo0 \<le> bexp q mid hi \<and> bexp q mid hi < hi0 \<and>
        (bexp q mid hi = lo0 \<or> pow2 (bexp q mid hi) \<le> q) \<and>
        (bexp q mid hi + 1 = hi0 \<or> q < pow2 (bexp q mid hi + 1))"
        using "1.IH"(1) [OF False, folded mid_def, OF True mid(2)] "1.prems" mid True
        by simp
      ultimately show ?thesis
        by simp
    next
      case nle: False
      have "bexp q lo hi = bexp q lo mid"
        using False nle by (subst bexp.simps) (simp add: mid_def)
      moreover have "lo0 \<le> bexp q lo mid \<and> bexp q lo mid < hi0 \<and>
        (bexp q lo mid = lo0 \<or> pow2 (bexp q lo mid) \<le> q) \<and>
        (bexp q lo mid + 1 = hi0 \<or> q < pow2 (bexp q lo mid + 1))"
        using "1.IH"(2) [OF False, folded mid_def, OF nle mid(1)] "1.prems" mid nle
        by simp
      ultimately show ?thesis
        by simp
    qed
  qed
qed

lemma fexp_spec:
  "- 126 \<le> fexp q" "fexp q \<le> 127"
  "- 126 < fexp q \<Longrightarrow> pow2 (fexp q) \<le> q"
  "fexp q < 127 \<Longrightarrow> q < pow2 (fexp q + 1)"
  using bexp_spec [of "- 126" 128 "- 126" 128 q] by (auto simp: fexp_def)

lemma fexp_unique:
  assumes "- 126 \<le> e" "e \<le> 127" "e = - 126 \<or> pow2 e \<le> q" "e = 127 \<or> q < pow2 (e + 1)"
  shows "fexp q = e"
proof (rule antisym)
  show "fexp q \<le> e"
  proof (rule ccontr)
    assume "\<not> fexp q \<le> e"
    then have lt: "e < fexp q"
      by simp
    then have "pow2 (fexp q) \<le> q" "q < pow2 (e + 1)"
      using fexp_spec [of q] assms by auto
    then have "pow2 (fexp q) < pow2 (e + 1)"
      by simp
    then show False
      using lt by (simp add: pow2_less_iff)
  qed
  show "e \<le> fexp q"
  proof (rule ccontr)
    assume "\<not> e \<le> fexp q"
    then have lt: "fexp q < e"
      by simp
    then have "pow2 e \<le> q" "q < pow2 (fexp q + 1)"
      using fexp_spec [of q] assms by auto
    then have "pow2 e < pow2 (fexp q + 1)"
      by simp
    then show False
      using lt by (simp add: pow2_less_iff)
  qed
qed


lemma round_even_of_int [simp]: "round_even (of_int k) = k"
  by (simp add: round_even_def)

lemma round_even_cases: "round_even q = \<lfloor>q\<rfloor> \<or> round_even q = \<lfloor>q\<rfloor> + 1"
  by (simp add: round_even_def Let_def)

lemma round_even_floor_le: "\<lfloor>q\<rfloor> \<le> round_even q"
  using round_even_cases [of q] by auto

lemma round_even_le_ceiling: "round_even q \<le> \<lceil>q\<rceil>"
proof (cases "q = of_int \<lfloor>q\<rfloor>")
  case True
  then have "round_even q = \<lfloor>q\<rfloor>"
    by (metis round_even_of_int)
  moreover from True have "\<lceil>q\<rceil> = \<lfloor>q\<rfloor>"
    by (metis ceiling_of_int)
  ultimately show ?thesis
    by simp
next
  case False
  then have "\<lceil>q\<rceil> = \<lfloor>q\<rfloor> + 1"
    by (simp add: ceiling_altdef)
  then show ?thesis
    using round_even_cases [of q] by auto
qed

lemma round_even_mono:
  assumes "q \<le> q'"
  shows "round_even q \<le> round_even q'"
proof (cases "\<lfloor>q\<rfloor> = \<lfloor>q'\<rfloor>")
  case True
  have "q - of_int \<lfloor>q\<rfloor> \<le> q' - of_int \<lfloor>q'\<rfloor>"
    using assms True by simp
  then show ?thesis
    using True by (auto simp: round_even_def Let_def)
next
  case False
  then have "\<lfloor>q\<rfloor> < \<lfloor>q'\<rfloor>"
    using floor_mono [OF assms] by simp
  then have "\<lfloor>q\<rfloor> + 1 \<le> \<lfloor>q'\<rfloor>"
    by simp
  then show ?thesis
    using round_even_cases [of q] round_even_floor_le [of q'] by auto
qed

lemma round_even_ge: "of_int a \<le> q \<Longrightarrow> a \<le> round_even q"
  using round_even_mono [of "of_int a" q] by simp

lemma round_even_le: "q \<le> of_int b \<Longrightarrow> round_even q \<le> b"
  using round_even_mono [of q "of_int b"] by simp

lemma uint_word32_of_int:
  assumes "0 \<le> x" "x < 2 ^ 32"
  shows "uint (word_of_int x :: 32 word) = x"
  using assms by (simp add: uint_word_of_int take_bit_eq_mod)

lemma uint_fbits:
  assumes "0 \<le> b" "b < 2 ^ 31"
  shows "uint (fbits s b) = (if s then 2 ^ 31 else 0) + b"
  unfolding fbits_def
proof (rule uint_word32_of_int)
  show "0 \<le> (if s then 2 ^ 31 else 0) + b"
    using assms by auto
  show "(if s then 2 ^ 31 else 0) + b < 2 ^ 32"
    using assms by auto
qed

lemma fbits_fields:
  assumes "0 \<le> b" "b < 2 ^ 31"
  shows "fsign (fbits s b) = s" "fexpo (fbits s b) = b div 2 ^ 23" "ffrac (fbits s b) = b mod 2 ^ 23"
proof -
  note u = uint_fbits [OF assms]
  show "fsign (fbits s b) = s"
    using assms by (simp add: fsign_def u)
  have d: "b div 2 ^ 23 < 2 ^ 8"
    using assms by simp
  have "(2 ^ 31 + b) div 2 ^ 23 = 2 ^ 8 + b div (2 :: int) ^ 23"
    by simp
  then show "fexpo (fbits s b) = b div 2 ^ 23"
    using assms d by (simp add: fexpo_def u pos_imp_zdiv_nonneg_iff)
  have "(2 ^ 31 + b) mod 2 ^ 23 = b mod (2 :: int) ^ 23"
    by (simp add: mod_add_left_eq [symmetric])
  then show "ffrac (fbits s b) = b mod 2 ^ 23"
    by (simp add: ffrac_def u)
qed


lemma scaled_bounds:
  assumes "0 \<le> q"
  shows "0 \<le> round_even (q / pow2 (fexp q - 23))"
    and "fexp q < 127 \<Longrightarrow> round_even (q / pow2 (fexp q - 23)) \<le> 2 ^ 24"
    and "- 126 < fexp q \<Longrightarrow> 2 ^ 23 \<le> round_even (q / pow2 (fexp q - 23))"
proof -
  show "0 \<le> round_even (q / pow2 (fexp q - 23))"
    using assms by (intro round_even_ge) simp
  show "round_even (q / pow2 (fexp q - 23)) \<le> 2 ^ 24" if "fexp q < 127"
  proof (rule round_even_le)
    have "q < pow2 (fexp q + 1)"
      using fexp_spec(4) [OF that] .
    also have "pow2 (fexp q + 1) = 2 ^ 24 * pow2 (fexp q - 23)"
      by (rule pow2_24 [symmetric])
    finally show "q / pow2 (fexp q - 23) \<le> of_int (2 ^ 24)"
      by (simp add: pos_divide_le_eq)
  qed
  show "2 ^ 23 \<le> round_even (q / pow2 (fexp q - 23))" if "- 126 < fexp q"
  proof (rule round_even_ge)
    have "pow2 (fexp q) = 2 ^ 23 * pow2 (fexp q - 23)"
      by (rule pow2_23 [symmetric])
    then have "2 ^ 23 * pow2 (fexp q - 23) \<le> q"
      using fexp_spec(3) [OF that] by simp
    then show "of_int (2 ^ 23) \<le> q / pow2 (fexp q - 23)"
      by (simp add: pos_le_divide_eq)
  qed
qed


lemma rval_nonneg: "0 \<le> q \<Longrightarrow> 0 \<le> rval q"
  using scaled_bounds(1) [of q] by (simp add: rval_def)




lemma rval_exact:
  assumes "0 \<le> k" "k \<le> 2 ^ 24" "- 126 \<le> e" "e \<le> 127" "- 126 < e \<Longrightarrow> 2 ^ 23 \<le> k"
    "k < 2 ^ 24"
  shows "fexp (of_int k * pow2 (e - 23)) = e" "rval (of_int k * pow2 (e - 23)) = of_int k * pow2 (e - 23)"
proof -
  have lo: "e = - 126 \<or> pow2 e \<le> of_int k * pow2 (e - 23)"
  proof (cases "- 126 < e")
    case True
    have "(2 ^ 23 :: rat) \<le> of_int k"
      using assms(5) [OF True] by (metis of_int_le_iff of_int_numeral of_int_power)
    then have "2 ^ 23 * pow2 (e - 23) \<le> of_int k * pow2 (e - 23)"
      by simp
    moreover have "2 ^ 23 * pow2 (e - 23) = pow2 e"
      by (rule pow2_23)
    ultimately show ?thesis
      by linarith
  next
    case False
    then show ?thesis
      using assms(3) by simp
  qed
  have "(of_int k :: rat) < 2 ^ 24"
    using assms(6) by (metis of_int_less_iff of_int_numeral of_int_power)
  then have "of_int k * pow2 (e - 23) < 2 ^ 24 * pow2 (e - 23)"
    by simp
  moreover have "2 ^ 24 * pow2 (e - 23) = pow2 (e + 1)"
    by (rule pow2_24)
  ultimately have hi: "of_int k * pow2 (e - 23) < pow2 (e + 1)"
    by linarith
  show fe: "fexp (of_int k * pow2 (e - 23)) = e"
    using fexp_unique [OF assms(3,4) lo] hi by simp
  show "rval (of_int k * pow2 (e - 23)) = of_int k * pow2 (e - 23)"
    by (simp add: rval_def fe)
qed

lemma finite_not_special: "is_finite x \<Longrightarrow> \<not> is_nan x \<and> \<not> is_inf x"
  by (simp add: is_finite_def is_nan_def is_inf_def)








lemma float_consts:
  "is_finite (float_of_int 1)" "\<not> fsign (float_of_int 1)" "fmag (float_of_int 1) = 1"
  "is_finite (float_of_int 2)" "\<not> fsign (float_of_int 2)" "fmag (float_of_int 2) = 2"
  "is_finite (float_of_int 0)" "\<not> fsign (float_of_int 0)" "fmag (float_of_int 0) = 0"
  "is_finite (fneg (float_of_int 1))" "fsign (fneg (float_of_int 1))"
  "fmag (fneg (float_of_int 1)) = 1"
  by code_simp+

lemma fzero_fields:
  "is_finite (fzero s)" "fsign (fzero s) = s" "fmag (fzero s) = 0"
proof -
  have b: "(0 :: int) \<le> 0" "(0 :: int) < 2 ^ 31"
    by simp_all
  note f = fbits_fields [OF b, of s]
  show "is_finite (fzero s)" "fsign (fzero s) = s" "fmag (fzero s) = 0"
    using f by (simp_all add: fzero_def is_finite_def fmag_def)
qed


lemma fmag_nonneg: "0 \<le> fmag x"
proof -
  have "0 \<le> ffrac x"
    by (simp add: ffrac_def)
  then show ?thesis
    by (simp add: fmag_def)
qed


lemma uint_fields:
  "uint x = (if fsign x then 2 ^ 31 else 0) + fexpo x * 2 ^ 23 + ffrac x"
proof -
  define u where "u = uint x"
  have u: "0 \<le> u" "u < 4294967296"
    using uint_lt2p [of x] by (simp_all add: u_def)
  define t where "t = u div 8388608"
  have t: "0 \<le> t" "t < 512"
    using u unfolding t_def by linarith+
  have s: "(2147483648 \<le> u) = (256 \<le> t)"
    unfolding t_def by linarith
  have "256 \<le> t \<Longrightarrow> t = 256 + t mod 256" "\<not> 256 \<le> t \<Longrightarrow> t = t mod 256"
    using t by presburger+
  then have "t = (if 256 \<le> t then 256 else 0) + t mod 256"
    by simp
  moreover have "u = t * 8388608 + u mod 8388608"
    by (simp add: t_def)
  ultimately have "u = ((if 256 \<le> t then 256 else 0) + t mod 256) * 8388608 + u mod 8388608"
    by simp
  then have "u = (if 2147483648 \<le> u then 2147483648 else 0) + (t mod 256) * 8388608 + u mod 8388608"
    unfolding s by (simp add: algebra_simps split: if_splits)
  then show ?thesis
    by (simp add: fsign_def fexpo_def ffrac_def u_def t_def split: if_splits)
qed

lemma field_ranges:
  "0 \<le> fexpo x" "fexpo x < 256" "0 \<le> ffrac x" "ffrac x < 2 ^ 23"
  by (simp_all add: fexpo_def ffrac_def)

lemma fbits_fields_id:
  "fbits (fsign x) (fexpo x * 2 ^ 23 + ffrac x) = x"
proof -
  have "fbits (fsign x) (fexpo x * 2 ^ 23 + ffrac x) = word_of_int (uint x)"
    unfolding fbits_def using uint_fields [of x] by (simp add: add.assoc)
  then show ?thesis
    by simp
qed

lemma round_mag_fmag:
  assumes "is_finite x"
  shows "round_mag (fmag x) = fexpo x * 2 ^ 23 + ffrac x"
proof (cases "fexpo x = 0")
  case True
  define k where "k = ffrac x"
  have k: "0 \<le> k" "k < 2 ^ 23"
    using field_ranges [of x] by (simp_all add: k_def)
  have q: "fmag x = of_int k * pow2 (- 126 - 23)"
    using True by (simp add: fmag_def k_def)
  have "fexp (of_int k * pow2 (- 126 - 23)) = - 126"
    using k by (intro rval_exact) simp_all
  then have e: "bexp (fmag x) (- 126) 128 = - 126"
    by (simp add: q fexp_def)
  have "round_even (fmag x / pow2 (- 126 - 23)) = k"
    by (simp add: q)
  then show ?thesis
    using True by (simp add: round_mag_def e Let_def k_def)
next
  case False
  define k where "k = 2 ^ 23 + ffrac x"
  define e where "e = fexpo x - 127"
  have k: "0 \<le> k" "k \<le> 2 ^ 24" "2 ^ 23 \<le> k" "k < 2 ^ 24"
    using field_ranges [of x] by (simp_all add: k_def)
  have e: "- 126 \<le> e" "e \<le> 127"
    using False assms field_ranges [of x] by (simp_all add: e_def is_finite_def)
  have q: "fmag x = of_int k * pow2 (e - 23)"
    using False by (simp add: fmag_def k_def e_def)
  have "fexp (of_int k * pow2 (e - 23)) = e"
    using k e by (intro rval_exact) simp_all
  then have b: "bexp (fmag x) (- 126) 128 = e"
    by (simp add: q fexp_def)
  have "round_even (fmag x / pow2 (e - 23)) = k"
    by (simp add: q)
  then have "round_mag (fmag x) = (e + 126) * 2 ^ 23 + k"
    using k(4) by (simp add: round_mag_def b Let_def)
  then show ?thesis
    by (simp add: e_def k_def algebra_simps)
qed

lemma fround_fmag:
  assumes "is_finite x"
  shows "fround (fsign x) (fmag x) = x"
  unfolding fround_def round_mag_fmag [OF assms] by (rule fbits_fields_id)

lemma fmul_one:
  assumes "is_finite x"
  shows "fmul x (float_of_int 1) = x"
  using finite_not_special [OF assms] finite_not_special [OF float_consts(1)] float_consts(2,3)
  by (simp add: fmul_def fround_fmag [OF assms])

lemma round_mag_0: "round_mag 0 = 0"
  by code_simp

lemma fmul_zero:
  assumes "is_finite x"
  shows "fmul x (float_of_int 0) = fzero (fsign x)"
  using finite_not_special [OF assms] finite_not_special [OF float_consts(7)] float_consts(8,9)
  by (simp add: fmul_def fround_def round_mag_0 fzero_def)

lemma float_of_int_0: "float_of_int 0 = fzero False"
  by code_simp

lemma fadd_zeros:
  assumes "is_finite x" "fmag x = 0" "is_finite z" "fmag z = 0" "\<not> fsign x \<or> \<not> fsign z"
  shows "fadd x z = float_of_int 0"
  using finite_not_special [OF assms(1)] finite_not_special [OF assms(3)] assms(2,4,5)
  by (auto simp: fadd_def valof_def float_of_int_0)

lemma fadd_zero_left:
  assumes "is_finite z" "fmag z = 0" "is_finite x" "fmag x \<noteq> 0"
  shows "fadd z x = x"
proof -
  have pos: "0 < fmag x"
    using assms(4) fmag_nonneg [of x] by simp
  have v: "valof z + valof x = valof x"
    using assms(2) by (simp add: valof_def)
  have "valof x \<noteq> 0" "(valof x < 0) = fsign x" "\<bar>valof x\<bar> = fmag x"
    using pos by (auto simp: valof_def)
  then show ?thesis
    using finite_not_special [OF assms(1)] finite_not_special [OF assms(3)]
    by (simp add: fadd_def v fround_fmag [OF assms(3)])
qed

lemma fadd_zero_right:
  assumes "is_finite z" "fmag z = 0" "is_finite x" "fmag x \<noteq> 0"
  shows "fadd x z = x"
proof -
  have pos: "0 < fmag x"
    using assms(4) fmag_nonneg [of x] by simp
  have v: "valof x + valof z = valof x"
    using assms(2) by (simp add: valof_def)
  have "valof x \<noteq> 0" "(valof x < 0) = fsign x" "\<bar>valof x\<bar> = fmag x"
    using pos by (auto simp: valof_def)
  then show ?thesis
    using finite_not_special [OF assms(1)] finite_not_special [OF assms(3)]
    by (simp add: fadd_def v fround_fmag [OF assms(3)])
qed

section \<open>Offsets\<close>

lemma offset_unat:
  fixes x y r c :: size_t
  assumes "x < r" "y < c" "unat r * unat c < 2 ^ 64"
  shows "unat (x * c + y) = unat x * unat c + unat y"
    and "unat x * unat c + unat y < unat r * unat c"
proof -
  have xr: "unat x < unat r" and yc: "unat y < unat c"
    using assms by (simp_all add: word_less_nat_alt)
  have "unat x * unat c + unat y < unat x * unat c + unat c"
    using yc by simp
  also have "\<dots> = Suc (unat x) * unat c"
    by simp
  also have "\<dots> \<le> unat r * unat c"
    using xr by (intro mult_le_mono1) simp
  finally show lt: "unat x * unat c + unat y < unat r * unat c" .
  then have b: "unat x * unat c + unat y < 2 ^ 64"
    using assms(3) by linarith
  then have "unat x * unat c < 2 ^ 64"
    by linarith
  then have "unat (x * c) = unat x * unat c"
    by (simp add: unat_word_ariths)
  then show "unat (x * c + y) = unat x * unat c + unat y"
    using b by (simp add: unat_word_ariths)
qed

lemma offset_inj:
  fixes x y x' y' r c :: size_t
  assumes "x < r" "y < c" "x' < r" "y' < c" "unat r * unat c < 2 ^ 64"
    and eq: "unat (x * c + y) = unat (x' * c + y')"
  shows "x = x' \<and> y = y'"
proof -
  have yc: "unat y < unat c" and yc': "unat y' < unat c"
    using assms by (simp_all add: word_less_nat_alt)
  have e: "unat x * unat c + unat y = unat x' * unat c + unat y'"
    using eq offset_unat(1) [OF assms(1,2,5)] offset_unat(1) [OF assms(3,4,5)] by simp
  have "(unat x * unat c + unat y) div unat c = unat x"
    using yc by simp
  moreover have "(unat x' * unat c + unat y') div unat c = unat x'"
    using yc' by simp
  ultimately have "unat x = unat x'"
    using e by simp
  moreover from this e have "unat y = unat y'"
    by simp
  ultimately show ?thesis
    by (simp add: word_unat_eq_iff)
qed

lemma shaped_load:
  assumes "shaped h a" "x < n a" "y < m a"
  shows "load h (Matrix_call a x y) \<noteq> Inl OutOfBounds"
    and "load h (Matrix_call a x y) \<noteq> Inl InvalidPointer"
proof -
  from assms(1) obtain buf where
    p: "data a < length (blocks h)" and
    b: "blocks h ! data a = Some buf" and
    l: "length buf = unat (n a) * unat (m a)" "length buf < 2 ^ 62"
    by (auto simp: shaped_def split: option.splits)
  have "unat (n a) * unat (m a) < 2 ^ 64"
    using l by simp
  from offset_unat [OF assms(2,3) this] have "unat (x * m a + y) < length buf"
    using l by simp
  then show "load h (Matrix_call a x y) \<noteq> Inl OutOfBounds"
    and "load h (Matrix_call a x y) \<noteq> Inl InvalidPointer"
    using p b by (auto simp: load_def Matrix_call_def split: option.splits)
qed

lemma valid_matrix_read:
  assumes "valid_matrix h a" "x < n a" "y < m a"
  shows "Matrix_call_const h a x y = Inr (elem h a x y)"
proof -
  from assms(1) obtain buf where
    p: "data a < length (blocks h)" and
    b: "blocks h ! data a = Some buf" and
    l: "length buf = unat (n a) * unat (m a)" "length buf < 2 ^ 62" and
    i: "list_all (\<lambda>c. c \<noteq> None) buf"
    by (auto simp: valid_matrix_def shaped_def split: option.splits)
  have "unat (n a) * unat (m a) < 2 ^ 64"
    using l by simp
  from offset_unat [OF assms(2,3) this] have o: "unat (x * m a + y) < length buf"
    using l by simp
  with i have "buf ! unat (x * m a + y) \<noteq> None"
    by (simp add: list_all_length)
  then obtain v where "buf ! unat (x * m a + y) = Some v"
    by auto
  then have "Matrix_call_const h a x y = Inr v"
    using p b o by (simp add: Matrix_call_const_def load_def)
  then show ?thesis
    by (simp add: elem_def)
qed

lemma dot_k_sum:
  assumes "reads h a A" "reads h b B" "m a = n b" "i < n a" "j < m b"
  shows "dot_k h a b i j k s =
    Inr (foldl (\<lambda>s k. fadd s (fmul (A i k) (B k j))) s (map of_nat [unat k..<unat (m a)]))"
proof (induction "unat (m a) - unat k" arbitrary: k s)
  case 0
  then have le: "unat (m a) \<le> unat k"
    by simp
  then have nlt: "\<not> k < m a"
    by (simp add: word_less_nat_alt)
  have e: "[unat k..<unat (m a)] = []"
    using le by simp
  show ?case
    unfolding e by (subst dot_k.simps) (simp add: nlt)
next
  case (Suc d)
  then have lt: "k < m a"
    by (simp add: word_less_nat_alt)
  have inc: "unat (k + 1) = Suc (unat k)"
    using lt by (rule size_t_inc)
  have ra: "Matrix_call_const h a i k = Inr (A i k)"
    using assms(1,4) lt by (simp add: reads_def)
  have rb: "Matrix_call_const h b k j = Inr (B k j)"
    using assms(2,3,5) lt by (simp add: reads_def)
  have "d = unat (m a) - unat (k + 1)"
    using Suc(2) inc by simp
  from Suc(1) [OF this] have
    "dot_k h a b i j (k + 1) (fadd s (fmul (A i k) (B k j))) =
      Inr (foldl (\<lambda>s k. fadd s (fmul (A i k) (B k j))) (fadd s (fmul (A i k) (B k j)))
        (map of_nat [Suc (unat k)..<unat (m a)]))"
    by (simp add: inc)
  moreover have "[unat k..<unat (m a)] = unat k # [Suc (unat k)..<unat (m a)]"
    using lt by (simp add: upt_conv_Cons word_less_nat_alt)
  ultimately show ?case
    using lt ra rb by (subst dot_k.simps) simp
qed


lemma load_store_same:
  assumes "store h l v = Inr h'"
  shows "load h' l = Inr v"
  using assms
  by (auto simp: store_def load_def split: if_splits option.splits)

lemma load_store_other:
  assumes "store h l v = Inr h'" "fst l' \<noteq> fst l \<or> unat (snd l') \<noteq> unat (snd l)"
  shows "load h' l' = load h l'"
  using assms
  by (auto simp: store_def load_def nth_list_update split: if_splits option.splits)

lemma reads_store:
  assumes "reads h a A" "store h l v = Inr h'" "fst l \<noteq> data a"
  shows "reads h' a A"
  using assms load_store_other [OF assms(2), of "(data a, off)" for off]
  by (simp add: reads_def Matrix_call_const_def)

lemma shaped_store:
  assumes "shaped h c" "store h l v = Inr h'"
  shows "shaped h' c"
  using assms
  by (auto simp: shaped_def store_def nth_list_update split: if_splits option.splits)

lemma shaped_store_ok:
  assumes "shaped h c" "x < n c" "y < m c"
  shows "\<exists>h'. store h (Matrix_call c x y) v = Inr h'"
proof -
  from assms(1) obtain buf where
    p: "data c < length (blocks h)" and
    b: "blocks h ! data c = Some buf" and
    l: "length buf = unat (n c) * unat (m c)" "length buf < 2 ^ 62"
    by (auto simp: shaped_def split: option.splits)
  have "unat (n c) * unat (m c) < 2 ^ 64"
    using l by simp
  from offset_unat [OF assms(2,3) this] have "unat (x * m c + y) < length buf"
    using l by simp
  then show ?thesis
    using p b by (simp add: store_def Matrix_call_def)
qed

lemma shaped_no_overflow:
  assumes "shaped h c"
  shows "unat (n c) * unat (m c) < 2 ^ 64"
proof -
  from assms have "unat (n c) * unat (m c) < 2 ^ 62"
    by (auto simp: shaped_def split: option.splits)
  then show ?thesis
    by simp
qed

lemma load_after_store:
  assumes sc: "shaped h c" and st: "store h (Matrix_call c i j) v = Inr h'"
    and r: "i < n c" "j < m c" "x < n c" "y < m c"
  shows "load h' (Matrix_call c x y) = (if x = i \<and> y = j then Inr v else load h (Matrix_call c x y))"
proof (cases "x = i \<and> y = j")
  case True
  then show ?thesis
    using load_store_same [OF st] by simp
next
  case False
  have "unat (x * m c + y) \<noteq> unat (i * m c + j)"
    using offset_inj [OF r(3,4,1,2) shaped_no_overflow [OF sc]] False by blast
  then have "load h' (Matrix_call c x y) = load h (Matrix_call c x y)"
    by (intro load_store_other [OF st]) (simp add: Matrix_call_def)
  with False show ?thesis
    by auto
qed

lemma size_t_le_inc:
  fixes j y bound :: size_t
  assumes "j < bound"
  shows "j \<le> y \<longleftrightarrow> y = j \<or> j + 1 \<le> y"
proof -
  have "unat (j + 1) = Suc (unat j)"
    using assms by (rule size_t_inc)
  then show ?thesis
    by (auto simp: word_le_nat_alt word_unat_eq_iff)
qed

lemma dot_j_effect:
  assumes d: "m a = n b" "n c = n a" "m c = m b"
    and ne: "data c \<noteq> data a" "data c \<noteq> data b"
    and i: "i < n a"
  shows "reads h a A \<Longrightarrow> reads h b B \<Longrightarrow> shaped h c \<Longrightarrow>
    \<exists>h'. dot_j h a b c i j = Inr h' \<and> shaped h' c \<and> reads h' a A \<and> reads h' b B \<and>
      (\<forall>x y. x < n c \<longrightarrow> y < m c \<longrightarrow>
         load h' (Matrix_call c x y) =
           (if x = i \<and> j \<le> y then Inr (dot_sum A B (m a) i y) else load h (Matrix_call c x y)))"
proof (induction "unat (m b) - unat j" arbitrary: j h)
  case 0
  then have le: "unat (m b) \<le> unat j"
    by simp
  then have nlt: "\<not> j < m b"
    by (simp add: word_less_nat_alt)
  have "\<not> j \<le> y" if "y < m c" for y
    using that le d(3) by (simp add: word_less_nat_alt word_le_nat_alt)
  then show ?case
    using 0 nlt by (subst dot_j.simps) simp
next
  case (Suc t)
  then have lt: "j < m b"
    by (simp add: word_less_nat_alt)
  have inc: "unat (j + 1) = Suc (unat j)"
    using lt by (rule size_t_inc)
  have s: "dot_k h a b i j 0 (float_of_int 0) = Inr (dot_sum A B (m a) i j)"
    using dot_k_sum [OF Suc(3,4) d(1) i lt, of 0 "float_of_int 0"] by (simp add: dot_sum_def)
  have ic: "i < n c" and jc: "j < m c"
    using i lt d by simp_all
  obtain h1 where h1: "store h (Matrix_call c i j) (dot_sum A B (m a) i j) = Inr h1"
    using shaped_store_ok [OF Suc(5) ic jc] by blast
  have f: "fst (Matrix_call c i j) \<noteq> data a" "fst (Matrix_call c i j) \<noteq> data b"
    using ne by (simp_all add: Matrix_call_def)
  have r1: "reads h1 a A" "reads h1 b B"
    using reads_store [OF Suc(3) h1 f(1)] reads_store [OF Suc(4) h1 f(2)] .
  have s1: "shaped h1 c"
    using shaped_store [OF Suc(5) h1] .
  have "t = unat (m b) - unat (j + 1)"
    using Suc(2) inc by simp
  from Suc(1) [OF this r1 s1] obtain h' where
    h': "dot_j h1 a b c i (j + 1) = Inr h'" "shaped h' c" "reads h' a A" "reads h' b B" and
    l: "\<And>x y. x < n c \<Longrightarrow> y < m c \<Longrightarrow>
         load h' (Matrix_call c x y) =
           (if x = i \<and> j + 1 \<le> y then Inr (dot_sum A B (m a) i y) else load h1 (Matrix_call c x y))"
    by blast
  have "load h' (Matrix_call c x y) =
      (if x = i \<and> j \<le> y then Inr (dot_sum A B (m a) i y) else load h (Matrix_call c x y))"
    if xy: "x < n c" "y < m c" for x y
    using l [OF xy] load_after_store [OF Suc(5) h1 ic jc xy] size_t_le_inc [OF lt, of y]
    by auto
  moreover have "dot_j h a b c i j = Inr h'"
    using lt s h1 h'(1) by (subst dot_j.simps) simp
  ultimately show ?case
    using h'(2-4) by blast
qed

lemma dot_i_effect:
  assumes d: "m a = n b" "n c = n a" "m c = m b"
    and ne: "data c \<noteq> data a" "data c \<noteq> data b"
  shows "reads h a A \<Longrightarrow> reads h b B \<Longrightarrow> shaped h c \<Longrightarrow>
    \<exists>h'. dot_i h a b c i = Inr h' \<and> shaped h' c \<and> reads h' a A \<and> reads h' b B \<and>
      (\<forall>x y. x < n c \<longrightarrow> y < m c \<longrightarrow>
         load h' (Matrix_call c x y) =
           (if i \<le> x then Inr (dot_sum A B (m a) x y) else load h (Matrix_call c x y)))"
proof (induction "unat (n a) - unat i" arbitrary: i h)
  case 0
  then have le: "unat (n a) \<le> unat i"
    by simp
  then have nlt: "\<not> i < n a"
    by (simp add: word_less_nat_alt)
  have "\<not> i \<le> x" if "x < n c" for x
    using that le d(2) by (simp add: word_less_nat_alt word_le_nat_alt)
  then show ?case
    using 0 nlt by (subst dot_i.simps) simp
next
  case (Suc t)
  then have lt: "i < n a"
    by (simp add: word_less_nat_alt)
  have inc: "unat (i + 1) = Suc (unat i)"
    using lt by (rule size_t_inc)
  from dot_j_effect [OF d ne lt Suc(3,4,5), of 0] obtain h1 where
    h1: "dot_j h a b c i 0 = Inr h1" "shaped h1 c" "reads h1 a A" "reads h1 b B" and
    l1: "\<And>x y. x < n c \<Longrightarrow> y < m c \<Longrightarrow>
         load h1 (Matrix_call c x y) =
           (if x = i then Inr (dot_sum A B (m a) i y) else load h (Matrix_call c x y))"
    by auto
  have "t = unat (n a) - unat (i + 1)"
    using Suc(2) inc by simp
  from Suc(1) [OF this h1(3,4,2)] obtain h' where
    h': "dot_i h1 a b c (i + 1) = Inr h'" "shaped h' c" "reads h' a A" "reads h' b B" and
    l: "\<And>x y. x < n c \<Longrightarrow> y < m c \<Longrightarrow>
         load h' (Matrix_call c x y) =
           (if i + 1 \<le> x then Inr (dot_sum A B (m a) x y) else load h1 (Matrix_call c x y))"
    by blast
  have "load h' (Matrix_call c x y) =
      (if i \<le> x then Inr (dot_sum A B (m a) x y) else load h (Matrix_call c x y))"
    if xy: "x < n c" "y < m c" for x y
    using l [OF xy] l1 [OF xy] size_t_le_inc [OF lt, of x]
    by auto
  moreover have "dot_i h a b c i = Inr h'"
    using lt h1(1) h'(1) by (subst dot_i.simps) simp
  ultimately show ?case
    using h'(2-4) by blast
qed

section \<open>The store outside the result matrix\<close>

lemma store_frame:
  assumes "store h l v = Inr h'"
  shows "limit h' = limit h" "length (blocks h') = length (blocks h)"
    "p \<noteq> fst l \<Longrightarrow> blocks h' ! p = blocks h ! p"
  using assms
  by (auto simp: store_def split: if_splits option.splits)

lemma dot_j_frame:
  "dot_j h a b c i j = Inr h' \<Longrightarrow>
     limit h' = limit h \<and> length (blocks h') = length (blocks h) \<and>
     (\<forall>p. p \<noteq> data c \<longrightarrow> blocks h' ! p = blocks h ! p)"
proof (induction h a b c i j arbitrary: h' rule: dot_j.induct)
  case (1 h a b c i j)
  show ?case
  proof (cases "j < m b")
    case False
    with "1.prems" show ?thesis
      by (simp add: dot_j.simps)
  next
    case True
    from "1.prems" True obtain s h1 where
      s: "dot_k h a b i j 0 (float_of_int 0) = Inr s" and
      h1: "store h (Matrix_call c i j) s = Inr h1" and
      rest: "dot_j h1 a b c i (j + 1) = Inr h'"
      by (subst (asm) dot_j.simps) (auto split: sum.splits)
    have "limit h' = limit h1 \<and> length (blocks h') = length (blocks h1) \<and>
      (\<forall>p. p \<noteq> data c \<longrightarrow> blocks h' ! p = blocks h1 ! p)"
      using "1.IH" [OF True s h1 rest] .
    moreover have "fst (Matrix_call c i j) = data c"
      by (simp add: Matrix_call_def)
    ultimately show ?thesis
      using store_frame [OF h1] by simp
  qed
qed

lemma dot_i_frame:
  "dot_i h a b c i = Inr h' \<Longrightarrow>
     limit h' = limit h \<and> length (blocks h') = length (blocks h) \<and>
     (\<forall>p. p \<noteq> data c \<longrightarrow> blocks h' ! p = blocks h ! p)"
proof (induction h a b c i arbitrary: h' rule: dot_i.induct)
  case (1 h a b c i)
  show ?case
  proof (cases "i < n a")
    case False
    with "1.prems" show ?thesis
      by (simp add: dot_i.simps)
  next
    case True
    from "1.prems" True obtain h1 where
      h1: "dot_j h a b c i 0 = Inr h1" and
      rest: "dot_i h1 a b c (i + 1) = Inr h'"
      by (subst (asm) dot_i.simps) (auto split: sum.splits)
    show ?thesis
      using "1.IH" [OF True h1 rest] dot_j_frame [OF h1] by simp
  qed
qed

lemma dot_frame:
  assumes "dot h a b = Inr (r, h')" "p < length (blocks h)"
  shows "blocks h' ! p = blocks h ! p"
proof -
  from assms(1) obtain c h1 h2 where
    c: "Matrix_ctor h (n a) (m b) = Inr (c, h1)" and
    h2: "dot_i h1 a b c 0 = Inr h2" and
    h': "Matrix_dtor h2 c = Inr h'"
    by (auto simp: dot_def dot_product_def split: sum.splits prod.splits)
  from c have dc: "data c = length (blocks h)" and b1: "blocks h1 = blocks h @ [Some (replicate (unat (n a * m b)) None)]"
    by (auto simp: Matrix_ctor_def new_float_array_def split: if_splits)
  have "blocks h' ! p = blocks h2 ! p"
    using h' assms(2) dc by (auto simp: Matrix_dtor_def delete_array_def split: if_splits option.splits)
  also have "\<dots> = blocks h1 ! p"
    using dot_i_frame [OF h2] assms(2) dc by simp
  also have "\<dots> = blocks h ! p"
    using b1 assms(2) by (simp add: nth_append)
  finally show ?thesis .
qed

section \<open>The product\<close>

lemma valid_matrix_reads:
  assumes "valid_matrix h a"
  shows "reads h a (elem h a)"
  using valid_matrix_read [OF assms] by (simp add: reads_def)

lemma reads_append:
  assumes "reads h a A" "data a < length (blocks h)"
  shows "reads (h\<lparr>blocks := blocks h @ bs\<rparr>) a A"
  using assms by (simp add: reads_def Matrix_call_const_def load_def nth_append)

lemma Matrix_ctor_ok:
  assumes sz: "unat r * unat c < 2 ^ 62" and mem: "live h + unat r * unat c \<le> limit h"
  shows "Matrix_ctor h r c =
    Inr (\<lparr>data = length (blocks h), n = r, m = c\<rparr>,
         h\<lparr>blocks := blocks h @ [Some (replicate (unat r * unat c) None)]\<rparr>)"
proof -
  have "unat r * unat c < 2 ^ 64"
    using sz by simp
  then have u: "unat (r * c) = unat r * unat c"
    by (simp add: unat_word_ariths)
  have "4 * k < (2 :: nat) ^ 64" if "k < 2 ^ 62" for k :: nat
    using that by simp
  from this [OF sz] have "4 * (unat r * unat c) < (2 :: nat) ^ 64" .
  then show ?thesis
    using mem by (simp add: Matrix_ctor_def new_float_array_def u)
qed

lemma dot_product_effect:
  assumes va: "valid_matrix h a" and vb: "valid_matrix h b" and d: "m a = n b"
    and sz: "unat (n a) * unat (m b) < 2 ^ 62"
    and mem: "live h + unat (n a) * unat (m b) \<le> limit h"
  shows "\<exists>c h2. dot_product h a b = Inr (c, h2) \<and>
    c = \<lparr>data = length (blocks h), n = n a, m = m b\<rparr> \<and> shaped h2 c \<and>
    (\<forall>x y. x < n a \<longrightarrow> y < m b \<longrightarrow>
       load h2 (Matrix_call c x y) = Inr (dot_sum (elem h a) (elem h b) (m a) x y))"
proof -
  define c where "c = \<lparr>data = length (blocks h), n = n a, m = m b\<rparr>"
  define h1 where
    "h1 = h\<lparr>blocks := blocks h @ [Some (replicate (unat (n a) * unat (m b)) None)]\<rparr>"
  have ctor: "Matrix_ctor h (n a) (m b) = Inr (c, h1)"
    unfolding c_def h1_def using sz mem by (rule Matrix_ctor_ok)
  have pa: "data a < length (blocks h)" and pb: "data b < length (blocks h)"
    using va vb by (simp_all add: valid_matrix_def shaped_def)
  have r1: "reads h1 a (elem h a)" "reads h1 b (elem h b)"
    unfolding h1_def
    using reads_append [OF valid_matrix_reads [OF va] pa]
      reads_append [OF valid_matrix_reads [OF vb] pb] by simp_all
  have s1: "shaped h1 c"
    using sz by (simp add: shaped_def c_def h1_def)
  have dims: "n c = n a" "m c = m b" and ne: "data c \<noteq> data a" "data c \<noteq> data b"
    using pa pb by (simp_all add: c_def)
  from dot_i_effect [OF d dims ne r1 s1, of 0] obtain h2 where
    h2: "dot_i h1 a b c 0 = Inr h2" "shaped h2 c" and
    l: "\<And>x y. x < n c \<Longrightarrow> y < m c \<Longrightarrow>
         load h2 (Matrix_call c x y) = Inr (dot_sum (elem h a) (elem h b) (m a) x y)"
    by auto
  have "dot_product h a b = Inr (c, h2)"
    using ctor h2(1) by (simp add: dot_product_def)
  then show ?thesis
    using h2(2) l dims c_def by auto
qed

lemma dot_product_frame:
  assumes "dot_product h a b = Inr (c, h2)"
  shows "limit h2 = limit h" "length (blocks h2) = Suc (length (blocks h))"
    "data c = length (blocks h)"
    "p < length (blocks h) \<Longrightarrow> blocks h2 ! p = blocks h ! p"
proof -
  from assms obtain h1 where
    c: "Matrix_ctor h (n a) (m b) = Inr (c, h1)" and
    h2: "dot_i h1 a b c 0 = Inr h2"
    by (auto simp: dot_product_def split: sum.splits prod.splits)
  from c have dc: "data c = length (blocks h)" and
    b1: "blocks h1 = blocks h @ [Some (replicate (unat (n a * m b)) None)]" and
    l1: "limit h1 = limit h"
    by (auto simp: Matrix_ctor_def new_float_array_def split: if_splits)
  show "data c = length (blocks h)"
    by (rule dc)
  show "limit h2 = limit h"
    using dot_i_frame [OF h2] l1 by simp
  show "length (blocks h2) = Suc (length (blocks h))"
    using dot_i_frame [OF h2] b1 by simp
  show "blocks h2 ! p = blocks h ! p" if "p < length (blocks h)"
    using dot_i_frame [OF h2] b1 dc that by (simp add: nth_append)
qed

lemma dot_returns_heap:
  assumes "dot h a b = Inr (r, h')"
  shows "h' = h\<lparr>blocks := blocks h @ [None]\<rparr>"
proof -
  from assms obtain c h2 where
    p: "dot_product h a b = Inr (c, h2)" and
    h': "Matrix_dtor h2 c = Inr h'"
    by (auto simp: dot_def split: sum.splits prod.splits)
  note f = dot_product_frame [OF p]
  from h' have b': "blocks h' = (blocks h2)[data c := None]" and l': "limit h' = limit h2"
    by (auto simp: Matrix_dtor_def delete_array_def split: if_splits option.splits)
  have "blocks h' = blocks h @ [None]"
  proof (rule nth_equalityI)
    show "length (blocks h') = length (blocks h @ [None])"
      using b' f(2) by simp
    fix p assume "p < length (blocks h')"
    then have "p < Suc (length (blocks h))"
      using b' f(2) by simp
    then show "blocks h' ! p = (blocks h @ [None]) ! p"
      using b' f(2,3,4) by (cases "p = length (blocks h)") (simp_all add: nth_append)
  qed
  then show ?thesis
    using l' f(1) by simp
qed

lemma dot_value:
  assumes va: "valid_matrix h a" and vb: "valid_matrix h b" and d: "m a = n b"
    and pos: "0 < n a" "0 < m b"
    and sz: "unat (n a) * unat (m b) < 2 ^ 62"
    and mem: "live h + unat (n a) * unat (m b) \<le> limit h"
  shows "dot h a b =
    Inr (dot_sum (elem h a) (elem h b) (m a) 0 0, h\<lparr>blocks := blocks h @ [None]\<rparr>)"
proof -
  from dot_product_effect [OF va vb d sz mem] obtain c h2 where
    p: "dot_product h a b = Inr (c, h2)" and
    c: "c = \<lparr>data = length (blocks h), n = n a, m = m b\<rparr>" and
    s: "shaped h2 c" and
    l: "\<And>x y. x < n a \<Longrightarrow> y < m b \<Longrightarrow>
         load h2 (Matrix_call c x y) = Inr (dot_sum (elem h a) (elem h b) (m a) x y)"
    by blast
  from s obtain h3 where h3: "Matrix_dtor h2 c = Inr h3"
    by (auto simp: shaped_def Matrix_dtor_def delete_array_def split: option.splits)
  have "dot h a b = Inr (dot_sum (elem h a) (elem h b) (m a) 0 0, h3)"
    using p l [OF pos] h3 by (simp add: dot_def)
  moreover from this have "h3 = h\<lparr>blocks := blocks h @ [None]\<rparr>"
    by (rule dot_returns_heap)
  ultimately show ?thesis
    by simp
qed


section \<open>The kernel on the example stores\<close>

lemma sums_2x2:
  "fadd (fadd (float_of_int 0) (fmul (float_of_int 1) (float_of_int 5)))
     (fmul (float_of_int 2) (float_of_int 7)) = float_of_int 19"
  "fadd (fadd (float_of_int 0) (fmul (float_of_int 1) (float_of_int 6)))
     (fmul (float_of_int 2) (float_of_int 8)) = float_of_int 22"
  "fadd (fadd (float_of_int 0) (fmul (float_of_int 3) (float_of_int 5)))
     (fmul (float_of_int 4) (float_of_int 7)) = float_of_int 43"
  "fadd (fadd (float_of_int 0) (fmul (float_of_int 3) (float_of_int 6)))
     (fmul (float_of_int 4) (float_of_int 8)) = float_of_int 50"
  by code_simp+

lemma exact_2x2:
  "valof (float_of_int 19) = 19" "valof (float_of_int 22) = 22"
  "valof (float_of_int 43) = 43" "valof (float_of_int 50) = 50"
  by code_simp+

lemma valid_2x2: "valid_matrix heap_2x2 a_2x2" "valid_matrix heap_2x2 b_2x2"
  by (simp_all add: valid_matrix_def shaped_def heap_2x2_def a_2x2_def b_2x2_def)

lemma dot_product_2x2: "dot_product heap_2x2 a_2x2 b_2x2 = Inr (c_2x2, heap_2x2_c)"
  by (simp add: dot_product_def Matrix_ctor_def new_float_array_def live_def
      dot_i.simps dot_j.simps dot_k.simps
      Matrix_call_const_def Matrix_call_def load_def store_def sums_2x2
      heap_2x2_def a_2x2_def b_2x2_def c_2x2_def heap_2x2_c_def)
    (simp add: eval_nat_numeral)

lemma dot_2x2:
  "dot heap_2x2 a_2x2 b_2x2 =
     Inr (float_of_int 19, heap_2x2\<lparr>blocks := blocks heap_2x2 @ [None]\<rparr>)"
  by (simp add: dot_def dot_product_2x2)
    (simp add: Matrix_call_def load_def Matrix_dtor_def delete_array_def
      heap_2x2_c_def c_2x2_def heap_2x2_def)

lemma loads_2x2:
  "load heap_2x2_c (Matrix_call c_2x2 0 0) = Inr (float_of_int 19)"
  "load heap_2x2_c (Matrix_call c_2x2 0 1) = Inr (float_of_int 22)"
  "load heap_2x2_c (Matrix_call c_2x2 1 0) = Inr (float_of_int 43)"
  "load heap_2x2_c (Matrix_call c_2x2 1 1) = Inr (float_of_int 50)"
  by (simp_all add: Matrix_call_def load_def heap_2x2_c_def c_2x2_def heap_2x2_def)

lemma wide_fields:
  "data a_wide = 0" "n a_wide = 2 ^ 32" "m a_wide = 1"
  "data b_wide = 1" "n b_wide = 1" "m b_wide = 2 ^ 32"
  "data c_wide = 2" "n c_wide = 2 ^ 32" "m c_wide = 2 ^ 32"
  by (simp_all add: a_wide_def b_wide_def c_wide_def)

lemma valid_wide: "valid_matrix heap_wide a_wide" "valid_matrix heap_wide b_wide"
  by (simp_all add: valid_matrix_def shaped_def heap_wide_def wide_fields list_all_iff)

lemma ctor_wide:
  "Matrix_ctor heap_wide (n a_wide) (m b_wide) = Inr (c_wide, heap_wide_c)"
  by (simp add: Matrix_ctor_def new_float_array_def live_def heap_wide_def wide_fields
      c_wide_def heap_wide_c_def)

lemma dot_k_wide:
  "dot_k heap_wide_c a_wide b_wide 0 0 0 s =
     Inr (fadd s (fmul (float_of_int 1) (float_of_int 1)))"
  by (simp add: dot_k.simps Matrix_call_const_def load_def heap_wide_def heap_wide_c_def
      wide_fields)

lemma store_wide: "store heap_wide_c (Matrix_call c_wide 0 0) s = Inl OutOfBounds"
  by (simp add: store_def Matrix_call_def heap_wide_def heap_wide_c_def wide_fields)

lemma dot_j_wide: "dot_j heap_wide_c a_wide b_wide c_wide 0 0 = Inl OutOfBounds"
  by (subst dot_j.simps) (simp add: dot_k_wide store_wide wide_fields)

lemma dot_i_wide: "dot_i heap_wide_c a_wide b_wide c_wide 0 = Inl OutOfBounds"
  by (subst dot_i.simps) (simp add: dot_j_wide wide_fields)

lemma dot_wide: "dot heap_wide a_wide b_wide = Inl OutOfBounds"
  by (simp add: dot_def dot_product_def ctor_wide dot_i_wide)

section \<open>Claims about the kernel\<close>

text \<open>
  C1, as the code has it. The claim is made for every pair of matrices with
  \<open>A.cols = B.rows\<close>. The kernel computes the size of the result as \<open>a.n * b.m\<close> in
  \<^verbatim>\<open>size_t\<close>, and nothing guards that product: for the column \<open>a_wide\<close> and the row \<open>b_wide\<close>
  it wraps to \<open>0\<close>, the result matrix has no cell, and the first assignment \<open>c(0, 0) = s\<close> lies
  outside its buffer.
\<close>

theorem dot_overflow_counterexample:
  "valid_matrix heap_wide a_wide \<and> valid_matrix heap_wide b_wide \<and> m a_wide = n b_wide \<and>
   0 < n a_wide \<and> 0 < m b_wide \<and> dot heap_wide a_wide b_wide = Inl OutOfBounds"
  by (simp add: valid_wide dot_wide wide_fields)

text \<open>
  C1, amended: for every pair of matrices \<open>A\<close> (\<open>n \<times> p\<close>) and \<open>B\<close> (\<open>p \<times> m\<close>), each with a
  buffer of \<open>rows * cols\<close> written elements, with \<open>A.cols = B.rows\<close> and at least one row
  of \<open>A\<close> and one column of \<open>B\<close>, whose product has
  fewer than \<open>2\<^sup>6\<^sup>2\<close> elements (so that neither \<open>a.n * b.m\<close> nor its size in bytes wraps) and
  can be allocated, the kernel builds the result in a block that was not in the store before,
  of shape \<open>n \<times> m\<close>; each element \<open>C(i,j)\<close> is the single-precision sum, for \<open>k\<close> ascending
  from \<open>0\<close> to \<open>p - 1\<close> and starting from \<open>0\<close>, of \<open>A(i,k) * B(k,j)\<close>; and the kernel returns
  \<open>C(0,0)\<close>, having released the block.
\<close>

theorem dot_computes_product:
  assumes "valid_matrix h a" and "valid_matrix h b" and "m a = n b"
    and "0 < n a" and "0 < m b"
    and "unat (n a) * unat (m b) < 2 ^ 62"
    and "live h + unat (n a) * unat (m b) \<le> limit h"
  shows "\<exists>c h2. dot_product h a b = Inr (c, h2) \<and>
    c = \<lparr>data = length (blocks h), n = n a, m = m b\<rparr> \<and>
    (\<forall>i j. i < n a \<longrightarrow> j < m b \<longrightarrow>
       load h2 (Matrix_call c i j) = Inr (dot_sum (elem h a) (elem h b) (m a) i j)) \<and>
    dot h a b =
      Inr (dot_sum (elem h a) (elem h b) (m a) 0 0, h\<lparr>blocks := blocks h @ [None]\<rparr>)"
  using dot_product_effect [OF assms(1,2,3,6,7)] dot_value [OF assms]
  by auto

theorem dot_computes_product_witness:
  "valid_matrix heap_2x2 a_2x2 \<and> valid_matrix heap_2x2 b_2x2 \<and> m a_2x2 = n b_2x2 \<and>
   0 < n a_2x2 \<and> 0 < m b_2x2 \<and> unat (n a_2x2) * unat (m b_2x2) < 2 ^ 62 \<and>
   live heap_2x2 + unat (n a_2x2) * unat (m b_2x2) \<le> limit heap_2x2 \<and>
   dot heap_2x2 a_2x2 b_2x2 =
     Inr (dot_sum (elem heap_2x2 a_2x2) (elem heap_2x2 b_2x2) (m a_2x2) 0 0,
          heap_2x2\<lparr>blocks := blocks heap_2x2 @ [None]\<rparr>) \<and>
   dot_sum (elem heap_2x2 a_2x2) (elem heap_2x2 b_2x2) (m a_2x2) 0 0 = float_of_int 19"
proof -
  have dims: "m a_2x2 = n b_2x2" "0 < n a_2x2" "0 < m b_2x2"
    "unat (n a_2x2) * unat (m b_2x2) < 2 ^ 62"
    by (simp_all add: a_2x2_def b_2x2_def)
  have mem: "live heap_2x2 + unat (n a_2x2) * unat (m b_2x2) \<le> limit heap_2x2"
    by (simp add: live_def heap_2x2_def a_2x2_def b_2x2_def)
  from dot_computes_product [OF valid_2x2 dims mem] have
    d: "dot heap_2x2 a_2x2 b_2x2 =
      Inr (dot_sum (elem heap_2x2 a_2x2) (elem heap_2x2 b_2x2) (m a_2x2) 0 0,
           heap_2x2\<lparr>blocks := blocks heap_2x2 @ [None]\<rparr>)"
    by blast
  with dot_2x2 have "dot_sum (elem heap_2x2 a_2x2) (elem heap_2x2 b_2x2) (m a_2x2) 0 0 =
    float_of_int 19"
    by simp
  with d valid_2x2 dims mem show ?thesis
    by simp
qed

text \<open>
  C2: for \<open>A = [[1,2],[3,4]]\<close> and \<open>B = [[5,6],[7,8]]\<close> the kernel returns \<open>19\<close>, and the product
  it has computed when it returns is \<open>[[19,22],[43,50]]\<close>, each value exactly.
\<close>

theorem dot_2x2_example:
  "dot heap_2x2 a_2x2 b_2x2 =
     Inr (float_of_int 19, heap_2x2\<lparr>blocks := blocks heap_2x2 @ [None]\<rparr>) \<and>
   dot_product heap_2x2 a_2x2 b_2x2 = Inr (c_2x2, heap_2x2_c) \<and>
   load heap_2x2_c (Matrix_call c_2x2 0 0) = Inr (float_of_int 19) \<and>
   load heap_2x2_c (Matrix_call c_2x2 0 1) = Inr (float_of_int 22) \<and>
   load heap_2x2_c (Matrix_call c_2x2 1 0) = Inr (float_of_int 43) \<and>
   load heap_2x2_c (Matrix_call c_2x2 1 1) = Inr (float_of_int 50) \<and>
   valof (float_of_int 19) = 19 \<and> valof (float_of_int 22) = 22 \<and>
   valof (float_of_int 43) = 43 \<and> valof (float_of_int 50) = 50"
  by (simp add: dot_2x2 dot_product_2x2 loads_2x2 exact_2x2)



section \<open>Accesses stay inside the buffers\<close>

lemma Matrix_call_const_load: "Matrix_call_const h a x y = load h (Matrix_call a x y)"
  by (simp add: Matrix_call_const_def Matrix_call_def)

lemma shaped_load_error:
  assumes "shaped h a" "x < n a" "y < m a" "load h (Matrix_call a x y) = Inl e"
  shows "e = Uninitialized"
  using shaped_load [OF assms(1-3)] assms(4)
  by (auto simp: load_def split: if_splits option.splits)

lemma dot_k_errors:
  "shaped h a \<Longrightarrow> shaped h b \<Longrightarrow> m a = n b \<Longrightarrow> i < n a \<Longrightarrow> j < m b \<Longrightarrow>
   dot_k h a b i j k s = Inl e \<Longrightarrow> e = Uninitialized"
proof (induction h a b i j k s rule: dot_k.induct)
  case (1 h a b i j k s)
  show ?case
  proof (cases "k < m a")
    case False
    with "1.prems" show ?thesis
      by (simp add: dot_k.simps)
  next
    case True
    have kb: "k < n b"
      using True "1.prems"(3) by simp
    show ?thesis
    proof (cases "Matrix_call_const h a i k")
      case (Inl e')
      then have "e' = Uninitialized"
        using shaped_load_error [OF "1.prems"(1,4) True] by (simp add: Matrix_call_const_load)
      moreover have "e = e'"
        using "1.prems"(6) True Inl by (subst (asm) dot_k.simps) simp
      ultimately show ?thesis
        by simp
    next
      case x: (Inr x)
      show ?thesis
      proof (cases "Matrix_call_const h b k j")
        case (Inl e')
        then have "e' = Uninitialized"
          using shaped_load_error [OF "1.prems"(2) kb "1.prems"(5)]
          by (simp add: Matrix_call_const_load)
        moreover have "e = e'"
          using "1.prems"(6) True x Inl by (subst (asm) dot_k.simps) simp
        ultimately show ?thesis
          by simp
      next
        case y: (Inr y)
        have rest: "dot_k h a b i j (k + 1) (fadd s (fmul x y)) = Inl e"
          using "1.prems"(6) True x y by (subst (asm) dot_k.simps) simp
        show ?thesis
          using "1.IH" [OF True x y "1.prems"(1-5) rest] .
      qed
    qed
  qed
qed

lemma dot_j_shaped:
  "dot_j h a b c i j = Inr h' \<Longrightarrow> shaped h x \<Longrightarrow> shaped h' x"
proof (induction h a b c i j arbitrary: h' rule: dot_j.induct)
  case (1 h a b c i j)
  show ?case
  proof (cases "j < m b")
    case False
    with "1.prems" show ?thesis
      by (simp add: dot_j.simps)
  next
    case True
    from "1.prems"(1) True obtain s h1 where
      s: "dot_k h a b i j 0 (float_of_int 0) = Inr s" and
      h1: "store h (Matrix_call c i j) s = Inr h1" and
      rest: "dot_j h1 a b c i (j + 1) = Inr h'"
      by (subst (asm) dot_j.simps) (auto split: sum.splits)
    show ?thesis
      using "1.IH" [OF True s h1 rest shaped_store [OF "1.prems"(2) h1]] .
  qed
qed

lemma dot_i_shaped:
  "dot_i h a b c i = Inr h' \<Longrightarrow> shaped h x \<Longrightarrow> shaped h' x"
proof (induction h a b c i arbitrary: h' rule: dot_i.induct)
  case (1 h a b c i)
  show ?case
  proof (cases "i < n a")
    case False
    with "1.prems" show ?thesis
      by (simp add: dot_i.simps)
  next
    case True
    from "1.prems"(1) True obtain h1 where
      h1: "dot_j h a b c i 0 = Inr h1" and
      rest: "dot_i h1 a b c (i + 1) = Inr h'"
      by (subst (asm) dot_i.simps) (auto split: sum.splits)
    show ?thesis
      using "1.IH" [OF True h1 rest dot_j_shaped [OF h1 "1.prems"(2)]] .
  qed
qed

lemma dot_j_errors:
  "shaped h a \<Longrightarrow> shaped h b \<Longrightarrow> shaped h c \<Longrightarrow> m a = n b \<Longrightarrow> n c = n a \<Longrightarrow>
   m c = m b \<Longrightarrow> i < n a \<Longrightarrow> dot_j h a b c i j = Inl e \<Longrightarrow> e = Uninitialized"
proof (induction h a b c i j rule: dot_j.induct)
  case (1 h a b c i j)
  show ?case
  proof (cases "j < m b")
    case False
    with "1.prems" show ?thesis
      by (simp add: dot_j.simps)
  next
    case True
    have ic: "i < n c" and jc: "j < m c"
      using "1.prems" True by simp_all
    show ?thesis
    proof (cases "dot_k h a b i j 0 (float_of_int 0)")
      case (Inl e')
      then have "e' = Uninitialized"
        using dot_k_errors [OF "1.prems"(1,2,4,7) True] by blast
      moreover have "e = e'"
        using "1.prems"(8) True Inl by (subst (asm) dot_j.simps) simp
      ultimately show ?thesis
        by simp
    next
      case (Inr s)
      obtain h1 where h1: "store h (Matrix_call c i j) s = Inr h1"
        using shaped_store_ok [OF "1.prems"(3) ic jc] by blast
      have rest: "dot_j h1 a b c i (j + 1) = Inl e"
        using "1.prems"(8) True Inr h1 by (subst (asm) dot_j.simps) simp
      show ?thesis
        using "1.IH" [OF True Inr h1 shaped_store [OF "1.prems"(1) h1]
            shaped_store [OF "1.prems"(2) h1] shaped_store [OF "1.prems"(3) h1]
            "1.prems"(4,5,6,7) rest] .
    qed
  qed
qed

lemma dot_i_errors:
  "shaped h a \<Longrightarrow> shaped h b \<Longrightarrow> shaped h c \<Longrightarrow> m a = n b \<Longrightarrow> n c = n a \<Longrightarrow>
   m c = m b \<Longrightarrow> dot_i h a b c i = Inl e \<Longrightarrow> e = Uninitialized"
proof (induction h a b c i rule: dot_i.induct)
  case (1 h a b c i)
  show ?case
  proof (cases "i < n a")
    case False
    with "1.prems" show ?thesis
      by (simp add: dot_i.simps)
  next
    case True
    show ?thesis
    proof (cases "dot_j h a b c i 0")
      case (Inl e')
      then have "e' = Uninitialized"
        using dot_j_errors [OF "1.prems"(1-6) True] by blast
      moreover have "e = e'"
        using "1.prems"(7) True Inl by (subst (asm) dot_i.simps) simp
      ultimately show ?thesis
        by simp
    next
      case (Inr h1)
      have rest: "dot_i h1 a b c (i + 1) = Inl e"
        using "1.prems"(7) True Inr by (subst (asm) dot_i.simps) simp
      show ?thesis
        using "1.IH" [OF True Inr dot_j_shaped [OF Inr "1.prems"(1)]
            dot_j_shaped [OF Inr "1.prems"(2)] dot_j_shaped [OF Inr "1.prems"(3)]
            "1.prems"(4,5,6) rest] .
    qed
  qed
qed

lemma dot_errors:
  assumes sa: "shaped h a" and sb: "shaped h b" and d: "m a = n b"
    and pos: "0 < n a" "0 < m b"
    and sz: "unat (n a) * unat (m b) < 2 ^ 64"
    and e: "dot h a b = Inl e"
  shows "e = Uninitialized \<or> e = BadArrayNewLength \<or> e = BadAlloc"
proof (cases "Matrix_ctor h (n a) (m b)")
  case (Inl e')
  then have "e' = BadArrayNewLength \<or> e' = BadAlloc"
    by (auto simp: Matrix_ctor_def new_float_array_def split: if_splits)
  moreover have "e = e'"
    using e Inl by (simp add: dot_def dot_product_def)
  ultimately show ?thesis
    by simp
next
  case (Inr ch)
  obtain c h1 where ch: "ch = (c, h1)"
    by (cases ch)
  have u: "unat (n a * m b) = unat (n a) * unat (m b)"
    using sz by (simp add: unat_word_ariths)
  from Inr ch have c: "c = \<lparr>data = length (blocks h), n = n a, m = m b\<rparr>" and
    h1: "h1 = h\<lparr>blocks := blocks h @ [Some (replicate (unat (n a) * unat (m b)) None)]\<rparr>" and
    small: "4 * (unat (n a) * unat (m b)) < 2 ^ 64"
    by (auto simp: Matrix_ctor_def new_float_array_def u split: if_splits)
  have "k < 2 ^ 62" if "4 * k < 2 ^ 64" for k :: nat
    using that by simp
  from this [OF small] have s1: "shaped h1 c"
    by (simp add: shaped_def c h1)
  have pa: "data a < length (blocks h)" and pb: "data b < length (blocks h)"
    using sa sb by (simp_all add: shaped_def)
  have sa1: "shaped h1 a" and sb1: "shaped h1 b"
    using sa sb pa pb by (simp_all add: shaped_def h1 nth_append)
  have dims: "n c = n a" "m c = m b"
    by (simp_all add: c)
  show ?thesis
  proof (cases "dot_i h1 a b c 0")
    case (Inl e')
    then have "e' = Uninitialized"
      using dot_i_errors [OF sa1 sb1 s1 d dims] by blast
    moreover have "e = e'"
      using e Inr ch Inl by (simp add: dot_def dot_product_def)
    ultimately show ?thesis
      by simp
  next
    case (Inr h2)
    have s2: "shaped h2 c"
      using dot_i_shaped [OF Inr s1] .
    have p: "dot_product h a b = Inr (c, h2)"
      using \<open>Matrix_ctor h (n a) (m b) = Inr ch\<close> ch Inr by (simp add: dot_product_def)
    from s2 obtain h3 where h3: "Matrix_dtor h2 c = Inr h3"
      by (auto simp: shaped_def Matrix_dtor_def delete_array_def split: option.splits)
    have "0 < n c" "0 < m c"
      using pos dims by simp_all
    note l = shaped_load_error [OF s2 this]
    from e p h3 obtain e' where "load h2 (Matrix_call c 0 0) = Inl e'" "e = e'"
      by (auto simp: dot_def split: sum.splits)
    with l show ?thesis
      by simp
  qed
qed

lemma later_buffer_length:
  assumes "later a h h'" "data a < length (blocks h)"
  shows "data a < length (blocks h') \<and> buffer_length h' a = buffer_length h a"
  using assms
proof (induction rule: later.induct)
  case now
  then show ?case by simp
next
  case (assign h1 l v h2)
  then show ?case
    by (auto simp: buffer_length_def store_def nth_list_update split: if_splits option.splits)
next
  case (allocate h1 k p h2)
  then show ?case
    by (auto simp: buffer_length_def new_float_array_def nth_append split: if_splits)
next
  case (release h1 p h2)
  then show ?case
    by (auto simp: buffer_length_def delete_array_def nth_list_update split: if_splits option.splits)
qed

lemma later_trans:
  assumes "later a h1 h2" "later a h h1"
  shows "later a h h2"
  using assms
  by (induction rule: later.induct) (auto intro: later.intros)

lemma Matrix_ctor_later_shaped:
  assumes "Matrix_ctor h r c = Inr (a, h1)" and "unat r * unat c < 2 ^ 64" and "later a h1 h2"
  shows "n a = r \<and> m a = c \<and> shaped h2 a"
proof -
  have u: "unat (r * c) = unat r * unat c"
    using assms(2) by (simp add: unat_word_ariths)
  from assms(1) have a: "a = \<lparr>data = length (blocks h), n = r, m = c\<rparr>" and
    h1: "h1 = h\<lparr>blocks := blocks h @ [Some (replicate (unat r * unat c) None)]\<rparr>"
    by (auto simp: Matrix_ctor_def new_float_array_def u split: if_splits)
  from assms(1) have "\<not> 2 ^ 64 \<le> 4 * unat (r * c)"
    by (auto simp: Matrix_ctor_def new_float_array_def split: if_splits)
  then have sz: "4 * (unat r * unat c) < 2 ^ 64"
    by (simp add: u)
  have p: "data a < length (blocks h1)" and l: "buffer_length h1 a = Some (unat r * unat c)"
    by (simp_all add: a h1 buffer_length_def)
  have "data a < length (blocks h2)" "buffer_length h2 a = Some (unat r * unat c)"
    using later_buffer_length [OF assms(3) p] l by simp_all
  moreover have "unat r * unat c < 2 ^ 62"
    using sz by (simp add: mult.commute)
  ultimately have "shaped h2 a"
    by (auto simp: shaped_def buffer_length_def a split: option.splits)
  then show ?thesis
    by (simp add: a)
qed

lemma writes_later: "writes h ws = Inr h' \<Longrightarrow> later x h h'"
proof (induction ws arbitrary: h)
  case Nil
  then show ?case by (simp add: later.now)
next
  case (Cons lv ws)
  from Cons.prems obtain h1 where
    h1: "store h (fst lv) (snd lv) = Inr h1" and rest: "writes h1 ws = Inr h'"
    by (auto split: sum.splits)
  have "later x h h1"
    using later.assign [OF later.now h1] .
  then show ?case
    using Cons.IH [OF rest] by (rule later_trans [rotated])
qed

lemma dot_j_later:
  "dot_j h a b c i j = Inr h' \<Longrightarrow> later x h h'"
proof (induction h a b c i j arbitrary: h' rule: dot_j.induct)
  case (1 h a b c i j)
  show ?case
  proof (cases "j < m b")
    case False
    with "1.prems" show ?thesis
      by (simp add: dot_j.simps later.now)
  next
    case True
    from "1.prems"(1) True obtain s h1 where
      s: "dot_k h a b i j 0 (float_of_int 0) = Inr s" and
      h1: "store h (Matrix_call c i j) s = Inr h1" and
      rest: "dot_j h1 a b c i (j + 1) = Inr h'"
      by (subst (asm) dot_j.simps) (auto split: sum.splits)
    have "later x h h1"
      using later.assign [OF later.now h1] .
    then show ?thesis
      using "1.IH" [OF True s h1 rest] by (rule later_trans [rotated])
  qed
qed

lemma dot_i_later:
  "dot_i h a b c i = Inr h' \<Longrightarrow> later x h h'"
proof (induction h a b c i arbitrary: h' rule: dot_i.induct)
  case (1 h a b c i)
  show ?case
  proof (cases "i < n a")
    case False
    with "1.prems" show ?thesis
      by (simp add: dot_i.simps later.now)
  next
    case True
    from "1.prems"(1) True obtain h1 where
      h1: "dot_j h a b c i 0 = Inr h1" and
      rest: "dot_i h1 a b c (i + 1) = Inr h'"
      by (subst (asm) dot_i.simps) (auto split: sum.splits)
    show ?thesis
      using "1.IH" [OF True h1 rest] dot_j_later [OF h1] by (rule later_trans)
  qed
qed

lemma dot_later:
  assumes "dot h a b = Inr (r, h')" "data x < length (blocks h)"
  shows "later x h h'"
proof -
  from assms(1) obtain c h1 h2 where
    c: "Matrix_ctor h (n a) (m b) = Inr (c, h1)" and
    h2: "dot_i h1 a b c 0 = Inr h2" and
    h': "Matrix_dtor h2 c = Inr h'"
    by (auto simp: dot_def dot_product_def split: sum.splits prod.splits)
  from c have dc: "data c = length (blocks h)" and n: "new_float_array h (n a * m b) = Inr (data c, h1)"
    by (auto simp: Matrix_ctor_def split: sum.splits)
       (auto simp: new_float_array_def split: if_splits)
  have "later x h h1"
    using later.allocate [OF later.now n] .
  then have "later x h h2"
    using dot_i_later [OF h2] by (rule later_trans [rotated])
  moreover have "data c \<noteq> data x"
    using dc assms(2) by simp
  ultimately show ?thesis
    using h' by (auto simp: Matrix_dtor_def intro: later.release)
qed

lemma fill_rand_j_later:
  "fill_rand_j RAND_MAX rand h g a i j = Inr (h', g') \<Longrightarrow> later x h h'"
proof (induction RAND_MAX rand h g a i j arbitrary: h' g' rule: fill_rand_j.induct)
  case (1 RAND_MAX rand h g a i j)
  show ?case
  proof (cases "j < m a")
    case False
    with "1.prems" show ?thesis
      by (simp add: fill_rand_j.simps later.now)
  next
    case True
    from "1.prems"(1) True obtain h1 where
      h1: "store h (Matrix_call a i j) (rand_float RAND_MAX (rand g)) = Inr h1" and
      rest: "fill_rand_j RAND_MAX rand h1 (Suc g) a i (j + 1) = Inr (h', g')"
      by (subst (asm) fill_rand_j.simps) (auto split: sum.splits)
    have "later x h h1"
      using later.assign [OF later.now h1] .
    then show ?thesis
      using "1.IH" [OF True h1 rest] by (rule later_trans [rotated])
  qed
qed

lemma fill_rand_i_later:
  "fill_rand_i RAND_MAX rand h g a i = Inr (h', g') \<Longrightarrow> later x h h'"
proof (induction RAND_MAX rand h g a i arbitrary: h' g' rule: fill_rand_i.induct)
  case (1 RAND_MAX rand h g a i)
  show ?case
  proof (cases "i < n a")
    case False
    with "1.prems" show ?thesis
      by (simp add: fill_rand_i.simps later.now)
  next
    case True
    from "1.prems"(1) True obtain h1 g1 where
      h1: "fill_rand_j RAND_MAX rand h g a i 0 = Inr (h1, g1)" and
      rest: "fill_rand_i RAND_MAX rand h1 g1 a (i + 1) = Inr (h', g')"
      by (subst (asm) fill_rand_i.simps) (auto split: sum.splits)
    show ?thesis
      using "1.IH" [OF True h1 refl rest] fill_rand_j_later [OF h1] by (rule later_trans)
  qed
qed

lemma fill_rand_later:
  "fill_rand RAND_MAX rand h g a = Inr (h', g') \<Longrightarrow> later x h h'"
  unfolding fill_rand_def by (rule fill_rand_i_later)

lemma shaped_2x2: "shaped heap_2x2 a_2x2" "shaped heap_2x2 b_2x2"
  using valid_2x2 by (simp_all add: valid_matrix_def)

lemma shaped_wide: "shaped heap_wide a_wide" "shaped heap_wide b_wide"
  using valid_wide by (simp_all add: valid_matrix_def)

lemma ctor_2x2: "Matrix_ctor heap_2x2 2 2 = Inr (c_2x2, heap_2x2_new)"
  by (simp add: Matrix_ctor_def new_float_array_def live_def heap_2x2_def c_2x2_def
      heap_2x2_new_def)

lemma dot_i_2x2: "dot_i heap_2x2_new a_2x2 b_2x2 c_2x2 0 = Inr heap_2x2_c"
proof -
  have "n a_2x2 = 2" "m b_2x2 = 2"
    by (simp_all add: a_2x2_def b_2x2_def)
  then show ?thesis
    using dot_product_2x2 by (auto simp: dot_product_def ctor_2x2 split: sum.splits)
qed

lemma later_2x2_c: "later c_2x2 heap_2x2_new heap_2x2_c"
  using dot_i_2x2 by (rule dot_i_later)

lemma ctor_2x2_a: "Matrix_ctor heap_empty 2 2 = Inr (a_2x2, heap_2x2_a)"
  by (simp add: Matrix_ctor_def new_float_array_def live_def heap_empty_def a_2x2_def
      heap_2x2_a_def)

lemma ctor_2x2_b: "Matrix_ctor heap_2x2_a 2 2 = Inr (b_2x2, heap_2x2_ab)"
  by (simp add: Matrix_ctor_def new_float_array_def live_def heap_2x2_a_def b_2x2_def
      heap_2x2_ab_def)

lemma writes_2x2:
  "writes heap_2x2_ab
     [(Matrix_call a_2x2 0 0, float_of_int 1), (Matrix_call a_2x2 0 1, float_of_int 2),
      (Matrix_call a_2x2 1 0, float_of_int 3), (Matrix_call a_2x2 1 1, float_of_int 4),
      (Matrix_call b_2x2 0 0, float_of_int 5), (Matrix_call b_2x2 0 1, float_of_int 6),
      (Matrix_call b_2x2 1 0, float_of_int 7), (Matrix_call b_2x2 1 1, float_of_int 8)] =
   Inr heap_2x2"
  by (simp add: store_def Matrix_call_def a_2x2_def b_2x2_def heap_2x2_ab_def heap_2x2_def)
    (simp add: eval_nat_numeral)

lemma later_2x2_a: "later a_2x2 heap_2x2_a heap_2x2"
proof -
  have "new_float_array heap_2x2_a 4 = Inr (1, heap_2x2_ab)"
    by (simp add: new_float_array_def live_def heap_2x2_a_def heap_2x2_ab_def)
  then have "later a_2x2 heap_2x2_a heap_2x2_ab"
    by (rule later.allocate [OF later.now])
  then show ?thesis
    using writes_later [OF writes_2x2] by (rule later_trans [rotated])
qed

lemma later_2x2_b: "later b_2x2 heap_2x2_ab heap_2x2"
  using writes_2x2 by (rule writes_later)

lemma tall_fields: "data a_tall = 0" "n a_tall = 2 ^ 32 + 1" "m a_tall = 2 ^ 32"
  by (simp_all add: a_tall_def)

lemma ctor_tall: "Matrix_ctor heap_tall_0 (2 ^ 32 + 1) (2 ^ 32) = Inr (a_tall, heap_tall_new)"
  by (simp add: Matrix_ctor_def new_float_array_def live_def heap_tall_0_def a_tall_def
      heap_tall_new_def)

lemma store_tall:
  "store heap_tall_new (Matrix_call a_tall 0 0) v = Inr (heap_tall v)"
  "store (heap_tall w) (Matrix_call a_tall (2 ^ 32) 0) v = Inr (heap_tall v)"
  by (simp_all add: store_def Matrix_call_def a_tall_def heap_tall_def heap_tall_new_def)

lemma load_tall: "Matrix_call_const (heap_tall v) a_tall 0 0 = Inr v"
  by (simp add: Matrix_call_const_def load_def a_tall_def heap_tall_def)

lemma float_2_ne_1: "float_of_int 2 \<noteq> float_of_int 1"
  by code_simp

lemma ctor_flat:
  "Matrix_ctor \<lparr>blocks = [], limit = 4\<rparr> 2 (2 ^ 63) =
     Inr (a_flat, \<lparr>blocks = [Some []], limit = 4\<rparr>)"
  "Matrix_ctor \<lparr>blocks = [Some []], limit = 4\<rparr> (2 ^ 63) 2 = Inr (b_flat, heap_flat)"
  by (simp_all add: Matrix_ctor_def new_float_array_def live_def heap_flat_def a_flat_def
      b_flat_def)

lemma dot_flat: "dot heap_flat a_flat b_flat = Inl OutOfBounds"
  by (simp add: dot_def dot_product_def Matrix_ctor_def new_float_array_def live_def
      dot_i.simps dot_j.simps dot_k.simps Matrix_call_const_def load_def
      heap_flat_def a_flat_def b_flat_def)

text \<open>
  C10, as the code has it. With \<open>A.cols = B.rows\<close>, \<open>A.rows > 0\<close> and \<open>B.cols > 0\<close> the kernel
  can still leave the buffer of its result matrix: for the column \<open>a_wide\<close> and the row
  \<open>b_wide\<close> the product \<open>a.n * b.m\<close> wraps to \<open>0\<close>, the buffer of \<open>c\<close> has no cell, and the
  assignment to \<open>c(0, 0)\<close> takes the out-of-bounds branch.
\<close>

theorem dot_out_of_bounds_counterexample:
  "shaped heap_wide a_wide \<and> shaped heap_wide b_wide \<and> m a_wide = n b_wide \<and>
   0 < n a_wide \<and> 0 < m b_wide \<and>
   Matrix_ctor heap_wide (n a_wide) (m b_wide) = Inr (c_wide, heap_wide_c) \<and>
   buffer_length heap_wide_c c_wide = Some 0 \<and>
   store heap_wide_c (Matrix_call c_wide 0 0) (float_of_int 1) = Inl OutOfBounds \<and>
   dot_product heap_wide a_wide b_wide = Inl OutOfBounds"
  by (simp add: shaped_wide ctor_wide store_wide dot_product_def dot_i_wide)
    (simp add: wide_fields buffer_length_def heap_wide_c_def heap_wide_def)

lemma shaped_dot_in_bounds:
  assumes "shaped h a" and "shaped h b" and "m a = n b" and "0 < n a" and "0 < m b"
    and "unat (n a) * unat (m b) < 2 ^ 64"
  shows "dot h a b \<noteq> Inl OutOfBounds \<and>
    (\<forall>i j k. i < n a \<longrightarrow> j < m b \<longrightarrow> k < m a \<longrightarrow>
       unat (snd (Matrix_call a i k)) < unat (n a) * unat (m a) \<and>
       unat (snd (Matrix_call b k j)) < unat (n b) * unat (m b) \<and>
       unat (snd (Matrix_call \<lparr>data = length (blocks h), n = n a, m = m b\<rparr> i j))
         < unat (n a) * unat (m b)) \<and>
    unat (snd (Matrix_call \<lparr>data = length (blocks h), n = n a, m = m b\<rparr> 0 0))
      < unat (n a) * unat (m b)"
proof -
  have "dot h a b \<noteq> Inl OutOfBounds"
    using dot_errors [OF assms] by auto
  moreover have "unat (snd (Matrix_call a i k)) < unat (n a) * unat (m a)"
    if "i < n a" "k < m a" for i k
    using offset_unat [OF that shaped_no_overflow [OF assms(1)]] by (simp add: Matrix_call_def)
  moreover have "unat (snd (Matrix_call b k j)) < unat (n b) * unat (m b)"
    if "k < m a" "j < m b" for k j
    using offset_unat [OF _ that(2) shaped_no_overflow [OF assms(2)], of k] that(1) assms(3)
    by (simp add: Matrix_call_def)
  moreover have "unat (snd (Matrix_call \<lparr>data = p, n = n a, m = m b\<rparr> i j))
      < unat (n a) * unat (m b)"
    if "i < n a" "j < m b" for i j p
    using offset_unat [OF that assms(6)] by (simp add: Matrix_call_def)
  ultimately show ?thesis
    using assms(4,5) by blast
qed

text \<open>
  C10, amended. The three preconditions do not say that the buffers of the operands hold
  \<open>rows * cols\<close> cells, and a constructor whose product wraps gives a buffer that does not:
  \<open>a_flat\<close> and \<open>b_flat\<close> are constructed (\<open>ctor_flat\<close>), their result has four elements, and
  the first read \<open>a(0, 0)\<close> is outside the empty buffer of \<open>a_flat\<close> (\<open>dot_flat\<close>). So: when
  \<open>A\<close> and \<open>B\<close> were constructed with \<open>rows * cols\<close> below \<open>2\<^sup>6\<^sup>4\<close> and are live (the store of the
  call is reached from their construction by assignments, allocations and releases of other
  buffers), \<open>A.cols = B.rows\<close>, \<open>A.rows > 0\<close>, \<open>B.cols > 0\<close>, and the number of elements of the
  result, \<open>A.rows * B.cols\<close>, is below \<open>2\<^sup>6\<^sup>4\<close> as well, then every element access of the kernel,
  the reads \<open>a(i,k)\<close> and \<open>b(k,j)\<close>, the writes \<open>c(i,j)\<close> and the final read \<open>c(0,0)\<close>, uses a
  linear offset below \<open>rows * cols\<close> of the matrix it accesses, and the kernel never takes the
  out-of-bounds branch. The elements of the operands need not have been written.
\<close>

theorem dot_accesses_in_bounds:
  assumes "Matrix_ctor ha ra ca = Inr (a, ha1)" and "unat ra * unat ca < 2 ^ 64"
    and "later a ha1 h"
    and "Matrix_ctor hb rb cb = Inr (b, hb1)" and "unat rb * unat cb < 2 ^ 64"
    and "later b hb1 h"
    and "ca = rb" and "0 < ra" and "0 < cb" and "unat ra * unat cb < 2 ^ 64"
  shows "dot h a b \<noteq> Inl OutOfBounds \<and>
    (\<forall>i j k. i < ra \<longrightarrow> j < cb \<longrightarrow> k < ca \<longrightarrow>
       unat (snd (Matrix_call a i k)) < unat ra * unat ca \<and>
       unat (snd (Matrix_call b k j)) < unat rb * unat cb \<and>
       unat (snd (Matrix_call \<lparr>data = length (blocks h), n = ra, m = cb\<rparr> i j))
         < unat ra * unat cb) \<and>
    unat (snd (Matrix_call \<lparr>data = length (blocks h), n = ra, m = cb\<rparr> 0 0))
      < unat ra * unat cb"
proof -
  from Matrix_ctor_later_shaped [OF assms(1,2,3)] have
    a: "n a = ra" "m a = ca" and sa: "shaped h a"
    by simp_all
  from Matrix_ctor_later_shaped [OF assms(4,5,6)] have
    b: "n b = rb" "m b = cb" and sb: "shaped h b"
    by simp_all
  have "m a = n b" "0 < n a" "0 < m b" "unat (n a) * unat (m b) < 2 ^ 64"
    using assms(7-10) by (simp_all add: a b)
  from shaped_dot_in_bounds [OF sa sb this] show ?thesis
    by (simp add: a b)
qed

theorem dot_accesses_in_bounds_witness:
  "Matrix_ctor heap_empty 2 2 = Inr (a_2x2, heap_2x2_a) \<and>
   unat (2 :: size_t) * unat (2 :: size_t) < 2 ^ 64 \<and>
   later a_2x2 heap_2x2_a heap_2x2 \<and>
   Matrix_ctor heap_2x2_a 2 2 = Inr (b_2x2, heap_2x2_ab) \<and>
   later b_2x2 heap_2x2_ab heap_2x2 \<and>
   (0 :: size_t) < 2 \<and> (1 :: size_t) < 2 \<and>
   dot heap_2x2 a_2x2 b_2x2 \<noteq> Inl OutOfBounds \<and>
   unat (snd (Matrix_call a_2x2 1 1)) < unat (2 :: size_t) * unat (2 :: size_t) \<and>
   unat (snd (Matrix_call b_2x2 1 1)) < unat (2 :: size_t) * unat (2 :: size_t)"
proof -
  have sz: "unat (2 :: size_t) * unat (2 :: size_t) < 2 ^ 64"
    by simp
  have r: "(0 :: size_t) < 2" "(1 :: size_t) < 2"
    by simp_all
  from dot_accesses_in_bounds [OF ctor_2x2_a sz later_2x2_a ctor_2x2_b sz later_2x2_b refl
      r(1,1) sz] r(2) have
    "dot heap_2x2 a_2x2 b_2x2 \<noteq> Inl OutOfBounds"
    "unat (snd (Matrix_call a_2x2 1 1)) < unat (2 :: size_t) * unat (2 :: size_t)"
    "unat (snd (Matrix_call b_2x2 1 1)) < unat (2 :: size_t) * unat (2 :: size_t)"
    by blast+
  with ctor_2x2_a ctor_2x2_b later_2x2_a later_2x2_b sz r show ?thesis
    by simp
qed

text \<open>
  C9, as the code has it. The claim is made for every pair of matrices with
  \<open>A.cols = B.rows\<close>, and says that the kernel writes only to its result matrix. For the
  column \<open>a_wide\<close> and the row \<open>b_wide\<close> the result matrix has no cell, and the assignment
  \<open>c(0, 0) = s\<close> of the first pass is a write outside its buffer: the call has no outcome in
  which the operands are as they were. (In C++ that write has undefined behaviour; it goes to
  memory that the result matrix does not own.)
\<close>

theorem dot_writes_outside_result_counterexample:
  "valid_matrix heap_wide a_wide \<and> valid_matrix heap_wide b_wide \<and> m a_wide = n b_wide \<and>
   Matrix_ctor heap_wide (n a_wide) (m b_wide) = Inr (c_wide, heap_wide_c) \<and>
   buffer_length heap_wide_c c_wide = Some 0 \<and>
   dot_j heap_wide_c a_wide b_wide c_wide 0 0 = Inl OutOfBounds \<and>
   dot heap_wide a_wide b_wide = Inl OutOfBounds"
  by (simp add: valid_wide ctor_wide dot_j_wide dot_wide)
    (simp add: wide_fields buffer_length_def heap_wide_c_def heap_wide_def)

text \<open>
  C9, amended: for every pair of matrices, each with a buffer of \<open>rows * cols\<close> cells, with
  \<open>A.cols = B.rows\<close>, \<open>A.rows > 0\<close>, \<open>B.cols > 0\<close> and \<open>A.rows * B.cols\<close> below \<open>2\<^sup>6\<^sup>4\<close> (the size of the result does not wrap in \<^verbatim>\<open>size_t\<close>), the
  kernel never writes outside its result matrix, and a call that returns leaves every block
  that was in the store before the call as it was: the buffers of both operands hold the
  same elements afterwards, and \<^verbatim>\<open>a(x, y)\<close> and \<^verbatim>\<open>b(x, y)\<close> read what they read before. The
  operands are passed by const reference: \<open>data\<close>, \<open>n\<close> and \<open>m\<close> are not assigned anywhere, and
  in the embedding they are values that the kernel only reads. The call does return when
  moreover all elements of the operands have been written, the result has fewer than \<open>2\<^sup>6\<^sup>2\<close>
  elements and it can be allocated.
\<close>

theorem dot_leaves_operands:
  assumes "shaped h a" and "shaped h b" and "m a = n b" and "0 < n a" and "0 < m b"
    and "unat (n a) * unat (m b) < 2 ^ 64"
  shows "dot h a b \<noteq> Inl OutOfBounds \<and>
    (dot h a b = Inr (r, h') \<longrightarrow>
      blocks h' ! data a = blocks h ! data a \<and> blocks h' ! data b = blocks h ! data b \<and>
      Matrix_call_const h' a x y = Matrix_call_const h a x y \<and>
      Matrix_call_const h' b x y = Matrix_call_const h b x y \<and>
      buffer_length h' a = buffer_length h a \<and> buffer_length h' b = buffer_length h b \<and>
      valid_matrix h' a = valid_matrix h a \<and> valid_matrix h' b = valid_matrix h b) \<and>
    (valid_matrix h a \<and> valid_matrix h b \<and> unat (n a) * unat (m b) < 2 ^ 62 \<and>
       live h + unat (n a) * unat (m b) \<le> limit h \<longrightarrow>
     (\<exists>s h2. dot h a b = Inr (s, h2)))"
proof (intro conjI impI)
  show "dot h a b \<noteq> Inl OutOfBounds"
    using dot_errors [OF assms] by auto
next
  have p: "data a < length (blocks h)" "data b < length (blocks h)"
    using assms(1,2) by (simp_all add: shaped_def)
  assume "dot h a b = Inr (r, h')"
  then have h': "h' = h\<lparr>blocks := blocks h @ [None]\<rparr>"
    by (rule dot_returns_heap)
  show "blocks h' ! data a = blocks h ! data a" "blocks h' ! data b = blocks h ! data b"
    "Matrix_call_const h' a x y = Matrix_call_const h a x y"
    "Matrix_call_const h' b x y = Matrix_call_const h b x y"
    "buffer_length h' a = buffer_length h a" "buffer_length h' b = buffer_length h b"
    "valid_matrix h' a = valid_matrix h a" "valid_matrix h' b = valid_matrix h b"
    using p
    by (simp_all add: h' Matrix_call_const_def load_def valid_matrix_def shaped_def
        buffer_length_def nth_append)
next
  assume "valid_matrix h a \<and> valid_matrix h b \<and> unat (n a) * unat (m b) < 2 ^ 62 \<and>
    live h + unat (n a) * unat (m b) \<le> limit h"
  then show "\<exists>s h2. dot h a b = Inr (s, h2)"
    using dot_value [of h a b] assms(3,4,5) by blast
qed

theorem dot_leaves_operands_witness:
  "shaped heap_2x2 a_2x2 \<and> shaped heap_2x2 b_2x2 \<and> m a_2x2 = n b_2x2 \<and>
   0 < n a_2x2 \<and> 0 < m b_2x2 \<and> unat (n a_2x2) * unat (m b_2x2) < 2 ^ 64 \<and>
   dot heap_2x2 a_2x2 b_2x2 =
     Inr (float_of_int 19, heap_2x2\<lparr>blocks := blocks heap_2x2 @ [None]\<rparr>) \<and>
   blocks (heap_2x2\<lparr>blocks := blocks heap_2x2 @ [None]\<rparr>) ! data a_2x2 =
     blocks heap_2x2 ! data a_2x2 \<and>
   blocks (heap_2x2\<lparr>blocks := blocks heap_2x2 @ [None]\<rparr>) ! data b_2x2 =
     blocks heap_2x2 ! data b_2x2 \<and>
   Matrix_call_const (heap_2x2\<lparr>blocks := blocks heap_2x2 @ [None]\<rparr>) a_2x2 1 1 =
     Matrix_call_const heap_2x2 a_2x2 1 1 \<and>
   valid_matrix heap_2x2 a_2x2 \<and> valid_matrix heap_2x2 b_2x2 \<and>
   unat (n a_2x2) * unat (m b_2x2) < 2 ^ 62 \<and>
   live heap_2x2 + unat (n a_2x2) * unat (m b_2x2) \<le> limit heap_2x2"
proof -
  have dims: "m a_2x2 = n b_2x2" "0 < n a_2x2" "0 < m b_2x2"
    "unat (n a_2x2) * unat (m b_2x2) < 2 ^ 64"
    by (simp_all add: a_2x2_def b_2x2_def)
  have sz: "unat (n a_2x2) * unat (m b_2x2) < 2 ^ 62"
    by (simp add: a_2x2_def b_2x2_def)
  have mem: "live heap_2x2 + unat (n a_2x2) * unat (m b_2x2) \<le> limit heap_2x2"
    by (simp add: live_def heap_2x2_def a_2x2_def b_2x2_def)
  from dot_leaves_operands [OF shaped_2x2 dims, of "float_of_int 19"
      "heap_2x2\<lparr>blocks := blocks heap_2x2 @ [None]\<rparr>" 1 1] dot_2x2
  show ?thesis
    using shaped_2x2 valid_2x2 dims sz mem by simp
qed

section \<open>Claims about the container\<close>

text \<open>
  C4, as the code has it. The constructor allocates \<open>r * c\<close> cells with the product taken in
  \<^verbatim>\<open>size_t\<close>. For \<open>2\<^sup>3\<^sup>2\<close> rows and \<open>2\<^sup>3\<^sup>2\<close> columns the product wraps to \<open>0\<close>: the constructor
  succeeds, and the buffer has no cell where \<open>rows * cols\<close> is \<open>2\<^sup>6\<^sup>4\<close>.
\<close>

theorem Matrix_ctor_overflow_counterexample:
  "(0 :: size_t) < 2 ^ 32 \<and>
   Matrix_ctor heap_wide (2 ^ 32) (2 ^ 32) = Inr (c_wide, heap_wide_c) \<and>
   n c_wide = 2 ^ 32 \<and> m c_wide = 2 ^ 32 \<and>
   buffer_length heap_wide_c c_wide = Some 0 \<and>
   unat (n c_wide) * unat (m c_wide) = 2 ^ 64"
  using ctor_wide
  by (simp add: wide_fields buffer_length_def heap_wide_c_def heap_wide_def)

text \<open>
  C4, amended: for every matrix constructed with \<open>rows * cols < 2\<^sup>6\<^sup>4\<close>, the buffer has
  \<open>rows * cols\<close> cells in the store the constructor returns and in every store reached from
  it by assignments, allocations and releases of other buffers (no operation resizes it); and
  element \<open>(i, j)\<close> with \<open>i < rows\<close> and \<open>j < cols\<close> is stored at and read from the linear
  offset \<open>i * cols + j\<close>, which does not wrap and is below \<open>rows * cols\<close>. The kernel and
  the random filler are such sequences of operations (\<open>dot_later\<close>, \<open>fill_rand_later\<close>).
\<close>

theorem Matrix_buffer_layout:
  assumes "Matrix_ctor h r c = Inr (a, h1)" and "unat r * unat c < 2 ^ 64" and "later a h1 h2"
  shows "n a = r \<and> m a = c \<and> buffer_length h2 a = Some (unat r * unat c) \<and>
    (\<forall>i j. i < r \<longrightarrow> j < c \<longrightarrow>
       Matrix_call a i j = (data a, i * c + j) \<and>
       Matrix_call_const h2 a i j = load h2 (data a, i * c + j) \<and>
       unat (i * c + j) = unat i * unat c + unat j \<and>
       unat i * unat c + unat j < unat r * unat c)"
proof -
  have u: "unat (r * c) = unat r * unat c"
    using assms(2) by (simp add: unat_word_ariths)
  from assms(1) have a: "a = \<lparr>data = length (blocks h), n = r, m = c\<rparr>" and
    h1: "h1 = h\<lparr>blocks := blocks h @ [Some (replicate (unat r * unat c) None)]\<rparr>"
    by (auto simp: Matrix_ctor_def new_float_array_def u split: if_splits)
  have p: "data a < length (blocks h1)" and l: "buffer_length h1 a = Some (unat r * unat c)"
    by (simp_all add: a h1 buffer_length_def)
  have "buffer_length h2 a = Some (unat r * unat c)"
    using later_buffer_length [OF assms(3) p] l by simp
  moreover have "unat (i * c + j) = unat i * unat c + unat j \<and>
      unat i * unat c + unat j < unat r * unat c" if "i < r" "j < c" for i j
    using offset_unat [OF that assms(2)] by simp
  ultimately show ?thesis
    by (simp add: a Matrix_call_def Matrix_call_const_def)
qed

theorem Matrix_buffer_layout_witness:
  "Matrix_ctor heap_2x2 2 2 = Inr (c_2x2, heap_2x2_new) \<and>
   unat (2 :: size_t) * unat (2 :: size_t) < 2 ^ 64 \<and>
   later c_2x2 heap_2x2_new heap_2x2_c \<and>
   buffer_length heap_2x2_c c_2x2 = Some 4 \<and>
   Matrix_call c_2x2 1 0 = (data c_2x2, 2) \<and>
   Matrix_call_const heap_2x2_c c_2x2 1 0 = Inr (float_of_int 43)"
proof -
  have sz: "unat (2 :: size_t) * unat (2 :: size_t) < 2 ^ 64"
    by simp
  have l: "later c_2x2 heap_2x2_new heap_2x2_c"
    using dot_i_2x2 by (rule dot_i_later)
  have r: "(1 :: size_t) < 2" "(0 :: size_t) < 2"
    by simp_all
  from Matrix_buffer_layout [OF ctor_2x2 sz l] r have
    "buffer_length heap_2x2_c c_2x2 = Some (unat (2 :: size_t) * unat (2 :: size_t))"
    "Matrix_call c_2x2 1 0 = (data c_2x2, 1 * 2 + 0)"
    "Matrix_call_const heap_2x2_c c_2x2 1 0 = load heap_2x2_c (data c_2x2, 1 * 2 + 0)"
    by blast+
  moreover have "load heap_2x2_c (data c_2x2, 1 * 2 + 0) = Inr (float_of_int 43)"
    using loads_2x2(3) by (simp add: Matrix_call_def c_2x2_def)
  ultimately show ?thesis
    using ctor_2x2 l by simp
qed

lemma shaped_set_get:
  assumes "shaped h a" and "i < n a" and "j < m a"
  shows "\<exists>h'. store h (Matrix_call a i j) v = Inr h' \<and>
    load h' (Matrix_call a i j) = Inr v \<and> Matrix_call_const h' a i j = Inr v \<and>
    (\<forall>x y. x < n a \<longrightarrow> y < m a \<longrightarrow> (x, y) \<noteq> (i, j) \<longrightarrow>
       load h' (Matrix_call a x y) = load h (Matrix_call a x y) \<and>
       Matrix_call_const h' a x y = Matrix_call_const h a x y) \<and>
    (\<forall>l. fst l \<noteq> data a \<longrightarrow> load h' l = load h l)"
proof -
  obtain h' where h': "store h (Matrix_call a i j) v = Inr h'"
    using shaped_store_ok [OF assms] by blast
  have "load h' (Matrix_call a x y) = load h (Matrix_call a x y)"
    if "x < n a" "y < m a" "(x, y) \<noteq> (i, j)" for x y
    using load_after_store [OF assms(1) h' assms(2,3) that(1,2)] that(3) by auto
  moreover have "load h' l = load h l" if "fst l \<noteq> data a" for l
    using load_store_other [OF h', of l] that by (simp add: Matrix_call_def)
  ultimately show ?thesis
    using h' load_store_same [OF h'] by (auto simp: Matrix_call_const_load)
qed

text \<open>
  C5, as the code has it. The claim is made for every matrix. The constructor takes
  \<open>rows * cols\<close> in \<^verbatim>\<open>size_t\<close>, and \<^verbatim>\<open>operator()\<close> takes \<open>i * cols + j\<close> in \<^verbatim>\<open>size_t\<close>. The matrix
  \<open>a_tall\<close> of \<open>2\<^sup>3\<^sup>2 + 1\<close> rows and \<open>2\<^sup>3\<^sup>2\<close> columns gets \<open>2\<^sup>3\<^sup>2\<close> cells, and the offset of
  \<open>(2\<^sup>3\<^sup>2, 0)\<close>, which is \<open>2\<^sup>6\<^sup>4\<close>, wraps to \<open>0\<close>, the offset of \<open>(0, 0)\<close>: after \<open>a(0, 0) = 1\<close> the
  assignment \<open>a(2\<^sup>3\<^sup>2, 0) = 2\<close> is within the buffer and changes the other element \<open>(0, 0)\<close>
  from \<open>1\<close> to \<open>2\<close>. And the matrix of \<open>2\<^sup>3\<^sup>2\<close> rows and \<open>2\<^sup>3\<^sup>2\<close> columns is constructed with no
  cell: the assignment \<open>c(0, 0) = 1\<close> is outside its buffer.
\<close>

theorem set_aliases_element_counterexample:
  "Matrix_ctor heap_tall_0 (2 ^ 32 + 1) (2 ^ 32) = Inr (a_tall, heap_tall_new) \<and>
   (0 :: size_t) < n a_tall \<and> (2 ^ 32 :: size_t) < n a_tall \<and> (0 :: size_t) < m a_tall \<and>
   (2 ^ 32 :: size_t) \<noteq> 0 \<and>
   store heap_tall_new (Matrix_call a_tall 0 0) (float_of_int 1) =
     Inr (heap_tall (float_of_int 1)) \<and>
   Matrix_call_const (heap_tall (float_of_int 1)) a_tall 0 0 = Inr (float_of_int 1) \<and>
   store (heap_tall (float_of_int 1)) (Matrix_call a_tall (2 ^ 32) 0) (float_of_int 2) =
     Inr (heap_tall (float_of_int 2)) \<and>
   Matrix_call_const (heap_tall (float_of_int 2)) a_tall 0 0 = Inr (float_of_int 2) \<and>
   float_of_int 2 \<noteq> float_of_int 1 \<and>
   Matrix_ctor heap_wide (2 ^ 32) (2 ^ 32) = Inr (c_wide, heap_wide_c) \<and>
   (0 :: size_t) < n c_wide \<and> (0 :: size_t) < m c_wide \<and>
   store heap_wide_c (Matrix_call c_wide 0 0) (float_of_int 1) = Inl OutOfBounds"
proof -
  have w: "Matrix_ctor heap_wide (2 ^ 32) (2 ^ 32) = Inr (c_wide, heap_wide_c)"
    using ctor_wide by (simp only: wide_fields)
  have r: "(0 :: size_t) < n a_tall" "(2 ^ 32 :: size_t) < n a_tall" "(0 :: size_t) < m a_tall"
    "(2 ^ 32 :: size_t) \<noteq> 0" "(0 :: size_t) < n c_wide" "(0 :: size_t) < m c_wide"
    by (simp_all add: tall_fields wide_fields)
  from ctor_tall r store_tall(1) [of "float_of_int 1"] load_tall [of "float_of_int 1"]
    store_tall(2) [of "float_of_int 1" "float_of_int 2"] load_tall [of "float_of_int 2"]
    float_2_ne_1 w store_wide [of "float_of_int 1"]
  show ?thesis
    by blast
qed

text \<open>
  C5, amended: for every matrix constructed with \<open>rows * cols\<close> below \<open>2\<^sup>6\<^sup>4\<close> (the product does
  not wrap in \<^verbatim>\<open>size_t\<close>), in every store reached from its construction by assignments,
  allocations and releases of other buffers, for every index pair in range and every value
  \<open>v\<close>, finite or not, the assignment \<open>a(i, j) = v\<close> succeeds, \<open>a(i, j)\<close> then reads the same
  32 bits \<open>v\<close> through either \<^verbatim>\<open>operator()\<close>, every other element of the matrix reads as
  before, and so does every location outside its buffer.
\<close>

theorem set_get_roundtrip:
  assumes "Matrix_ctor h0 r c = Inr (a, h1)" and "unat r * unat c < 2 ^ 64"
    and "later a h1 h" and "i < r" and "j < c"
  shows "\<exists>h'. store h (Matrix_call a i j) v = Inr h' \<and>
    load h' (Matrix_call a i j) = Inr v \<and> Matrix_call_const h' a i j = Inr v \<and>
    (\<forall>x y. x < r \<longrightarrow> y < c \<longrightarrow> (x, y) \<noteq> (i, j) \<longrightarrow>
       load h' (Matrix_call a x y) = load h (Matrix_call a x y) \<and>
       Matrix_call_const h' a x y = Matrix_call_const h a x y) \<and>
    (\<forall>l. fst l \<noteq> data a \<longrightarrow> load h' l = load h l)"
proof -
  from Matrix_ctor_later_shaped [OF assms(1,2,3)] have
    d: "n a = r" "m a = c" and s: "shaped h a"
    by simp_all
  show ?thesis
    using shaped_set_get [OF s, of i j v] assms(4,5) by (simp add: d)
qed

theorem set_get_roundtrip_witness:
  "Matrix_ctor heap_2x2 2 2 = Inr (c_2x2, heap_2x2_new) \<and>
   unat (2 :: size_t) * unat (2 :: size_t) < 2 ^ 64 \<and>
   later c_2x2 heap_2x2_new heap_2x2_c \<and> (0 :: size_t) < 2 \<and> (1 :: size_t) < 2 \<and>
   (\<exists>h'. store heap_2x2_c (Matrix_call c_2x2 0 1) (float_of_int 9) = Inr h' \<and>
      load h' (Matrix_call c_2x2 0 1) = Inr (float_of_int 9) \<and>
      load h' (Matrix_call c_2x2 1 1) = Inr (float_of_int 50))"
proof -
  have sz: "unat (2 :: size_t) * unat (2 :: size_t) < 2 ^ 64"
    by simp
  have r: "(0 :: size_t) < 2" "(1 :: size_t) < 2"
    by simp_all
  from set_get_roundtrip [OF ctor_2x2 sz later_2x2_c r, of "float_of_int 9"] obtain h' where
    "store heap_2x2_c (Matrix_call c_2x2 0 1) (float_of_int 9) = Inr h'"
    "load h' (Matrix_call c_2x2 0 1) = Inr (float_of_int 9)"
    "\<And>x y. x < (2 :: size_t) \<Longrightarrow> y < (2 :: size_t) \<Longrightarrow> (x, y) \<noteq> (0, 1) \<Longrightarrow>
       load h' (Matrix_call c_2x2 x y) = load heap_2x2_c (Matrix_call c_2x2 x y)"
    by blast
  from this(1,2) this(3) [OF r(2,2)] loads_2x2(4) ctor_2x2 sz later_2x2_c show ?thesis
    by auto
qed


section \<open>The random filler\<close>

lemma same_outside_refl: "same_outside p h h"
  by (simp add: same_outside_def)

lemma same_outside_trans:
  "same_outside p h h1 \<Longrightarrow> same_outside p h1 h2 \<Longrightarrow> same_outside p h h2"
  by (simp add: same_outside_def)

lemma same_outside_store:
  assumes "store h l v = Inr h'"
  shows "same_outside (fst l) h h'"
  using assms
  by (auto simp: same_outside_def store_def split: if_splits option.splits)

lemma same_outside_live:
  assumes "same_outside p h h'"
  shows "live h' = live h"
proof -
  define f where "f = (\<lambda>b :: buffer option. case b of None \<Rightarrow> 0 | Some buf \<Rightarrow> length buf)"
  have "f (blocks h' ! q) = f (blocks h ! q)" for q
  proof (cases "q = p")
    case True
    have "map_option length (blocks h' ! p) = map_option length (blocks h ! p)"
      using assms by (simp add: same_outside_def)
    then show ?thesis
      unfolding True f_def by (cases "blocks h' ! p"; cases "blocks h ! p") simp_all
  next
    case False
    then show ?thesis
      using assms by (simp add: same_outside_def)
  qed
  moreover have "length (blocks h') = length (blocks h)"
    using assms by (simp add: same_outside_def)
  ultimately have "map f (blocks h') = map f (blocks h)"
    by (intro nth_equalityI) simp_all
  then show ?thesis
    by (simp add: live_def f_def)
qed

lemma same_outside_load:
  assumes "same_outside p h h'" "fst l \<noteq> p"
  shows "load h' l = load h l"
  using assms by (simp add: same_outside_def load_def)

lemma same_outside_reads:
  assumes "same_outside p h h'" "data a \<noteq> p" "reads h a A"
  shows "reads h' a A"
  using assms(3) same_outside_load [OF assms(1), of "(data a, off)" for off] assms(2)
  by (simp add: reads_def Matrix_call_const_def)

lemma same_outside_shaped:
  assumes "same_outside p h h'" "shaped h a"
  shows "shaped h' a"
proof (cases "data a = p")
  case True
  have "map_option length (blocks h' ! p) = map_option length (blocks h ! p)"
    "length (blocks h') = length (blocks h)"
    using assms(1) by (simp_all add: same_outside_def)
  then show ?thesis
    using assms(2) unfolding shaped_def True
    by (cases "blocks h' ! p"; cases "blocks h ! p") simp_all
next
  case False
  then show ?thesis
    using assms by (simp add: same_outside_def shaped_def)
qed

lemma fill_rand_j_effect:
  assumes i: "i < n a"
  shows "shaped h a \<Longrightarrow>
    \<exists>h'. fill_rand_j R rand h g a i j = Inr (h', g + (unat (m a) - unat j)) \<and>
      shaped h' a \<and> same_outside (data a) h h' \<and>
      (\<forall>x y. x < n a \<longrightarrow> y < m a \<longrightarrow>
         load h' (Matrix_call a x y) =
           (if x = i \<and> j \<le> y then Inr (rand_float R (rand (g + (unat y - unat j))))
            else load h (Matrix_call a x y)))"
proof (induction "unat (m a) - unat j" arbitrary: j h g)
  case 0
  then have le: "unat (m a) \<le> unat j"
    by simp
  then have nlt: "\<not> j < m a"
    by (simp add: word_less_nat_alt)
  have "\<not> j \<le> y" if "y < m a" for y
    using that le by (simp add: word_less_nat_alt word_le_nat_alt)
  then show ?case
    using 0 nlt le by (subst fill_rand_j.simps) (simp add: same_outside_refl)
next
  case (Suc t)
  then have lt: "j < m a"
    by (simp add: word_less_nat_alt)
  have inc: "unat (j + 1) = Suc (unat j)"
    using lt by (rule size_t_inc)
  obtain h1 where h1: "store h (Matrix_call a i j) (rand_float R (rand g)) = Inr h1"
    using shaped_store_ok [OF Suc(3) i lt] by blast
  have s1: "shaped h1 a"
    using shaped_store [OF Suc(3) h1] .
  have o1: "same_outside (data a) h h1"
    using same_outside_store [OF h1] by (simp add: Matrix_call_def)
  have "t = unat (m a) - unat (j + 1)"
    using Suc(2) inc by simp
  from Suc(1) [OF this s1, of "Suc g"] obtain h' where
    h': "fill_rand_j R rand h1 (Suc g) a i (j + 1) =
      Inr (h', Suc g + (unat (m a) - unat (j + 1)))"
      "shaped h' a" "same_outside (data a) h1 h'" and
    l: "\<And>x y. x < n a \<Longrightarrow> y < m a \<Longrightarrow>
         load h' (Matrix_call a x y) =
           (if x = i \<and> j + 1 \<le> y
            then Inr (rand_float R (rand (Suc g + (unat y - unat (j + 1)))))
            else load h1 (Matrix_call a x y))"
    by blast
  have cnt: "Suc g + (unat (m a) - unat (j + 1)) = g + (unat (m a) - unat j)"
    using lt inc by (simp add: word_less_nat_alt)
  have "load h' (Matrix_call a x y) =
      (if x = i \<and> j \<le> y then Inr (rand_float R (rand (g + (unat y - unat j))))
       else load h (Matrix_call a x y))"
    if xy: "x < n a" "y < m a" for x y
  proof (cases "x = i \<and> j + 1 \<le> y")
    case True
    then have "Suc (unat j) \<le> unat y"
      using inc by (simp add: word_le_nat_alt)
    then have "Suc g + (unat y - unat (j + 1)) = g + (unat y - unat j)"
      using inc by simp
    then have "rand (Suc g + (unat y - unat (j + 1))) = rand (g + (unat y - unat j))"
      by (rule arg_cong)
    moreover have "j \<le> y"
      using True size_t_le_inc [OF lt, of y] by simp
    ultimately show ?thesis
      using l [OF xy] True by simp
  next
    case False
    show ?thesis
      using l [OF xy] False load_after_store [OF Suc(3) h1 i lt xy]
        size_t_le_inc [OF lt, of y]
      by auto
  qed
  moreover have "fill_rand_j R rand h g a i j = Inr (h', g + (unat (m a) - unat j))"
    using lt h1 h'(1) cnt by (subst fill_rand_j.simps) simp
  ultimately show ?case
    using h'(2) same_outside_trans [OF o1 h'(3)] by blast
qed

lemma fill_rand_i_effect:
  "shaped h a \<Longrightarrow>
    \<exists>h'. fill_rand_i R rand h g a i = Inr (h', g + (unat (n a) - unat i) * unat (m a)) \<and>
      shaped h' a \<and> same_outside (data a) h h' \<and>
      (\<forall>x y. x < n a \<longrightarrow> y < m a \<longrightarrow>
         load h' (Matrix_call a x y) =
           (if i \<le> x
            then Inr (rand_float R (rand (g + (unat x - unat i) * unat (m a) + unat y)))
            else load h (Matrix_call a x y)))"
proof (induction "unat (n a) - unat i" arbitrary: i h g)
  case 0
  then have le: "unat (n a) \<le> unat i"
    by simp
  then have nlt: "\<not> i < n a"
    by (simp add: word_less_nat_alt)
  have "\<not> i \<le> x" if "x < n a" for x
    using that le by (simp add: word_less_nat_alt word_le_nat_alt)
  then show ?case
    using 0 nlt le by (subst fill_rand_i.simps) (simp add: same_outside_refl)
next
  case (Suc t)
  then have lt: "i < n a"
    by (simp add: word_less_nat_alt)
  have inc: "unat (i + 1) = Suc (unat i)"
    using lt by (rule size_t_inc)
  from fill_rand_j_effect [OF lt Suc(3), of R rand g 0] obtain h1 where
    h1: "fill_rand_j R rand h g a i 0 = Inr (h1, g + unat (m a))"
      "shaped h1 a" "same_outside (data a) h h1" and
    l1: "\<And>x y. x < n a \<Longrightarrow> y < m a \<Longrightarrow>
         load h1 (Matrix_call a x y) =
           (if x = i then Inr (rand_float R (rand (g + unat y)))
            else load h (Matrix_call a x y))"
    by auto
  have "t = unat (n a) - unat (i + 1)"
    using Suc(2) inc by simp
  from Suc(1) [OF this h1(2), of "g + unat (m a)"] obtain h' where
    h': "fill_rand_i R rand h1 (g + unat (m a)) a (i + 1) =
      Inr (h', g + unat (m a) + (unat (n a) - unat (i + 1)) * unat (m a))"
      "shaped h' a" "same_outside (data a) h1 h'" and
    l: "\<And>x y. x < n a \<Longrightarrow> y < m a \<Longrightarrow>
         load h' (Matrix_call a x y) =
           (if i + 1 \<le> x
            then Inr (rand_float R
              (rand (g + unat (m a) + (unat x - unat (i + 1)) * unat (m a) + unat y)))
            else load h1 (Matrix_call a x y))"
    by blast
  have step: "unat (m a) + (k - Suc (unat i)) * unat (m a) = (k - unat i) * unat (m a)"
    if "Suc (unat i) \<le> k" for k
  proof -
    have "k - unat i = Suc (k - Suc (unat i))"
      using that by simp
    then show ?thesis
      by simp
  qed
  have cnt: "g + unat (m a) + (unat (n a) - unat (i + 1)) * unat (m a) =
      g + (unat (n a) - unat i) * unat (m a)"
    using step [of "unat (n a)"] lt inc by (simp add: word_less_nat_alt)
  have "load h' (Matrix_call a x y) =
      (if i \<le> x
       then Inr (rand_float R (rand (g + (unat x - unat i) * unat (m a) + unat y)))
       else load h (Matrix_call a x y))"
    if xy: "x < n a" "y < m a" for x y
  proof (cases "i + 1 \<le> x")
    case True
    then have "Suc (unat i) \<le> unat x"
      using inc by (simp add: word_le_nat_alt)
    then have "g + unat (m a) + (unat x - unat (i + 1)) * unat (m a) + unat y =
        g + (unat x - unat i) * unat (m a) + unat y"
      using step [of "unat x"] inc by simp
    then have "rand (g + unat (m a) + (unat x - unat (i + 1)) * unat (m a) + unat y) =
        rand (g + (unat x - unat i) * unat (m a) + unat y)"
      by (rule arg_cong)
    moreover have "i \<le> x"
      using True size_t_le_inc [OF lt, of x] by simp
    ultimately show ?thesis
      using l [OF xy] True by simp
  next
    case False
    show ?thesis
      using l [OF xy] False l1 [OF xy] size_t_le_inc [OF lt, of x]
      by auto
  qed
  moreover have "fill_rand_i R rand h g a i =
      Inr (h', g + (unat (n a) - unat i) * unat (m a))"
    using lt h1(1) h'(1) cnt by (subst fill_rand_i.simps) simp
  ultimately show ?case
    using h'(2) same_outside_trans [OF h1(3) h'(3)] by blast
qed

lemma fill_rand_effect:
  assumes "shaped h a"
  shows "\<exists>h'. fill_rand R rand h g a = Inr (h', g + unat (n a) * unat (m a)) \<and>
      shaped h' a \<and> same_outside (data a) h h' \<and>
      reads h' a (\<lambda>x y. rand_float R (rand (g + unat x * unat (m a) + unat y)))"
  using fill_rand_i_effect [OF assms, of R rand g 0]
  by (auto simp: fill_rand_def reads_def Matrix_call_const_load)








section \<open>Multiplying by the identity\<close>

lemma dot_product_reads:
  assumes ra: "reads h a A" and rb: "reads h b B"
    and pa: "data a < length (blocks h)" and pb: "data b < length (blocks h)"
    and d: "m a = n b"
    and sz: "unat (n a) * unat (m b) < 2 ^ 62"
    and mem: "live h + unat (n a) * unat (m b) \<le> limit h"
  shows "\<exists>c h2. dot_product h a b = Inr (c, h2) \<and>
    c = \<lparr>data = length (blocks h), n = n a, m = m b\<rparr> \<and> shaped h2 c \<and>
    (\<forall>x y. x < n a \<longrightarrow> y < m b \<longrightarrow>
       load h2 (Matrix_call c x y) = Inr (dot_sum A B (m a) x y))"
proof -
  define c where "c = \<lparr>data = length (blocks h), n = n a, m = m b\<rparr>"
  define h1 where
    "h1 = h\<lparr>blocks := blocks h @ [Some (replicate (unat (n a) * unat (m b)) None)]\<rparr>"
  have ctor: "Matrix_ctor h (n a) (m b) = Inr (c, h1)"
    unfolding c_def h1_def using sz mem by (rule Matrix_ctor_ok)
  have r1: "reads h1 a A" "reads h1 b B"
    unfolding h1_def using reads_append [OF ra pa] reads_append [OF rb pb] by simp_all
  have s1: "shaped h1 c"
    using sz by (simp add: shaped_def c_def h1_def)
  have dims: "n c = n a" "m c = m b" and ne: "data c \<noteq> data a" "data c \<noteq> data b"
    using pa pb by (simp_all add: c_def)
  from dot_i_effect [OF d dims ne r1 s1, of 0] obtain h2 where
    h2: "dot_i h1 a b c 0 = Inr h2" "shaped h2 c" and
    l: "\<And>x y. x < n c \<Longrightarrow> y < m c \<Longrightarrow>
         load h2 (Matrix_call c x y) = Inr (dot_sum A B (m a) x y)"
    by auto
  have "dot_product h a b = Inr (c, h2)"
    using ctor h2(1) by (simp add: dot_product_def)
  then show ?thesis
    using h2(2) l dims c_def by auto
qed

lemma dot_value_reads:
  assumes ra: "reads h a A" and rb: "reads h b B"
    and pa: "data a < length (blocks h)" and pb: "data b < length (blocks h)"
    and d: "m a = n b" and pos: "0 < n a" "0 < m b"
    and sz: "unat (n a) * unat (m b) < 2 ^ 62"
    and mem: "live h + unat (n a) * unat (m b) \<le> limit h"
  shows "dot h a b = Inr (dot_sum A B (m a) 0 0, h\<lparr>blocks := blocks h @ [None]\<rparr>)"
proof -
  from dot_product_reads [OF ra rb pa pb d sz mem] obtain c h2 where
    p: "dot_product h a b = Inr (c, h2)" and
    s: "shaped h2 c" and
    l: "\<And>x y. x < n a \<Longrightarrow> y < m b \<Longrightarrow>
         load h2 (Matrix_call c x y) = Inr (dot_sum A B (m a) x y)"
    by blast
  from s obtain h3 where h3: "Matrix_dtor h2 c = Inr h3"
    by (auto simp: shaped_def Matrix_dtor_def delete_array_def split: option.splits)
  have "dot h a b = Inr (dot_sum A B (m a) 0 0, h3)"
    using p l [OF pos] h3 by (simp add: dot_def)
  moreover from this have "h3 = h\<lparr>blocks := blocks h @ [None]\<rparr>"
    by (rule dot_returns_heap)
  ultimately show ?thesis
    by simp
qed

lemma size_t_of_nat_unat:
  fixes p :: size_t
  assumes "t < unat p"
  shows "unat (of_nat t :: size_t) = t" "(of_nat t :: size_t) < p"
proof -
  have "unat p < 2 ^ 64"
    using unsigned_less [of p] by simp
  then have "t < 2 ^ 64"
    using assms by simp
  then show u: "unat (of_nat t :: size_t) = t"
    by (simp add: unat_of_nat)
  show "(of_nat t :: size_t) < p"
    using assms by (simp add: word_less_nat_alt u)
qed

lemma dot_sum_identity:
  assumes fin: "\<And>k. k < p \<Longrightarrow> is_finite (A i k)"
    and idm: "\<And>k. k < p \<Longrightarrow> B k j = (if k = j then float_of_int 1 else float_of_int 0)"
    and j: "j < p"
  shows "dot_sum A B p i j = (if fmag (A i j) = 0 then float_of_int 0 else A i j)"
proof -
  define step where "step = (\<lambda>s k. fadd s (fmul (A i k) (B k j)))"
  define res where "res = (if fmag (A i j) = 0 then float_of_int 0 else A i j)"
  have z: "is_finite (float_of_int 0)" "fmag (float_of_int 0) = 0" "\<not> fsign (float_of_int 0)"
    using float_consts by simp_all
  have "t \<le> unat p \<Longrightarrow> foldl step (float_of_int 0) (map of_nat [0..<t]) =
      (if unat j < t then res else float_of_int 0)" for t
  proof (induction t)
    case 0
    then show ?case by simp
  next
    case (Suc t)
    then have t: "t < unat p"
      by simp
    define k :: size_t where "k = of_nat t"
    have k: "unat k = t" "k < p"
      using size_t_of_nat_unat [OF t] by (simp_all add: k_def)
    have fk: "is_finite (A i k)"
      using fin [OF k(2)] .
    have prev: "foldl step (float_of_int 0) (map of_nat [0..<t]) =
        (if unat j < t then res else float_of_int 0)"
      using Suc by simp
    have unfold: "foldl step (float_of_int 0) (map of_nat [0..<Suc t]) =
        step (if unat j < t then res else float_of_int 0) k"
      using prev by (simp add: k_def)
    consider (before) "t < unat j" | (at) "t = unat j" | (after) "unat j < t"
      by linarith
    then have "step (if unat j < t then res else float_of_int 0) k =
        (if unat j < Suc t then res else float_of_int 0)"
    proof cases
      case before
      then have "k \<noteq> j"
        using k(1) by auto
      then have "fmul (A i k) (B k j) = fzero (fsign (A i k))"
        using idm [OF k(2)] fmul_zero [OF fk] by simp
      then have "step (float_of_int 0) k = float_of_int 0"
        unfolding step_def using fadd_zeros [OF z(1,2) fzero_fields(1,3)] z(3) by simp
      then show ?thesis
        using before by simp
    next
      case at
      then have kj: "k = j"
        using k(1) by (simp add: word_unat_eq_iff)
      then have pr: "fmul (A i k) (B k j) = A i j"
        using idm [OF k(2)] fmul_one [OF fk] by simp
      have "step (float_of_int 0) k = res"
      proof (cases "fmag (A i j) = 0")
        case True
        then show ?thesis
          unfolding step_def pr res_def
          using fadd_zeros [OF z(1,2) _ True] fk kj z(3) by simp
      next
        case False
        then show ?thesis
          unfolding step_def pr res_def
          using fadd_zero_left [OF z(1,2) _ False] fk kj by simp
      qed
      then show ?thesis
        using at by simp
    next
      case after
      then have "k \<noteq> j"
        using k(1) by auto
      then have pr: "fmul (A i k) (B k j) = fzero (fsign (A i k))"
        using idm [OF k(2)] fmul_zero [OF fk] by simp
      have "step res k = res"
      proof (cases "fmag (A i j) = 0")
        case True
        then show ?thesis
          unfolding step_def pr res_def
          using fadd_zeros [OF z(1,2) fzero_fields(1,3)] z(3) by simp
      next
        case False
        then show ?thesis
          unfolding step_def pr res_def
          using fadd_zero_right [OF fzero_fields(1,3) fin [OF j] False] by simp
      qed
      then show ?thesis
        using after by simp
    qed
    then show ?case
      using unfold by simp
  qed
  from this [of "unat p"] show ?thesis
    using j by (simp add: dot_sum_def step_def res_def word_less_nat_alt)
qed

lemma sums_inf:
  "fadd (fadd (float_of_int 0) (fmul (finf False) (float_of_int 1)))
     (fmul (float_of_int 0) (float_of_int 0)) = finf False"
  "fadd (fadd (float_of_int 0) (fmul (finf False) (float_of_int 0)))
     (fmul (float_of_int 0) (float_of_int 1)) = fnan"
  by code_simp+

lemma nan_facts: "is_nan fnan" "\<not> feq fnan (float_of_int 0)" "is_inf (finf False)"
  by code_simp+

lemma valid_inf: "valid_matrix heap_inf a_inf" "valid_matrix heap_inf id_2x2"
  by (simp_all add: valid_matrix_def shaped_def heap_inf_def a_inf_def id_2x2_def)

lemma dot_product_inf: "dot_product heap_inf a_inf id_2x2 = Inr (c_inf, heap_inf_c)"
  by (simp add: dot_product_def Matrix_ctor_def new_float_array_def live_def
      dot_i.simps dot_j.simps dot_k.simps
      Matrix_call_const_def Matrix_call_def load_def store_def sums_inf
      heap_inf_def a_inf_def id_2x2_def c_inf_def heap_inf_c_def)
    (simp add: eval_nat_numeral)

text \<open>
  C6, as the code has it. The claim is made for every matrix \<open>A\<close>. An infinite element times
  the \<open>0\<close> of the identity is a NaN, which then stays in the sum: for \<open>A = [[\<infinity>, 0]]\<close> the
  kernel computes a NaN at \<open>(0,1)\<close>, where \<open>A\<close> has \<open>0\<close>. (The same happens to every element
  that shares a row with a NaN.)
\<close>

theorem dot_identity_infinity_counterexample:
  "valid_matrix heap_inf a_inf \<and> valid_matrix heap_inf id_2x2 \<and>
   n id_2x2 = m a_inf \<and> m id_2x2 = m a_inf \<and>
   Matrix_call_const heap_inf id_2x2 0 0 = Inr (float_of_int 1) \<and>
   Matrix_call_const heap_inf id_2x2 0 1 = Inr (float_of_int 0) \<and>
   Matrix_call_const heap_inf id_2x2 1 0 = Inr (float_of_int 0) \<and>
   Matrix_call_const heap_inf id_2x2 1 1 = Inr (float_of_int 1) \<and>
   Matrix_call_const heap_inf a_inf 0 0 = Inr (finf False) \<and>
   Matrix_call_const heap_inf a_inf 0 1 = Inr (float_of_int 0) \<and>
   dot_product heap_inf a_inf id_2x2 = Inr (c_inf, heap_inf_c) \<and>
   load heap_inf_c (Matrix_call c_inf 0 1) = Inr fnan \<and>
   is_nan fnan \<and> \<not> feq fnan (float_of_int 0)"
  by (simp add: valid_inf dot_product_inf nan_facts)
    (simp add: Matrix_call_const_def Matrix_call_def load_def heap_inf_c_def heap_inf_def
      a_inf_def id_2x2_def c_inf_def)

text \<open>
  C6, amended: for every matrix \<open>A\<close> of shape \<open>n \<times> p\<close> whose elements are all finite, and the
  \<open>p \<times> p\<close> identity matrix with exact \<open>0\<close> and \<open>1\<close> entries (the product being small enough
  to be allocated), every element of the product that the kernel computes equals the element
  of \<open>A\<close> under \<^verbatim>\<open>==\<close>; it has the same bits unless the element of \<open>A\<close> is a zero, where the
  product has \<open>+0\<close> also for \<open>-0\<close>. No rounding occurs.
\<close>

theorem dot_identity:
  assumes "valid_matrix h a" and "valid_matrix h b" and "n b = m a" and "m b = m a"
    and "\<forall>k j. k < m a \<longrightarrow> j < m a \<longrightarrow>
      elem h b k j = (if k = j then float_of_int 1 else float_of_int 0)"
    and "\<forall>i k. i < n a \<longrightarrow> k < m a \<longrightarrow> is_finite (elem h a i k)"
    and "unat (n a) * unat (m a) < 2 ^ 62"
    and "live h + unat (n a) * unat (m a) \<le> limit h"
  shows "\<exists>c h2. dot_product h a b = Inr (c, h2) \<and> n c = n a \<and> m c = m a \<and>
    (\<forall>i j. i < n a \<longrightarrow> j < m a \<longrightarrow>
       (\<exists>v. load h2 (Matrix_call c i j) = Inr v \<and> feq v (elem h a i j) \<and>
          (fmag (elem h a i j) \<noteq> 0 \<longrightarrow> v = elem h a i j) \<and>
          (fmag (elem h a i j) = 0 \<longrightarrow> v = float_of_int 0)))"
proof -
  have d: "m a = n b"
    using assms(3) by simp
  have sz: "unat (n a) * unat (m b) < 2 ^ 62"
    and mem: "live h + unat (n a) * unat (m b) \<le> limit h"
    using assms(4,7,8) by simp_all
  from dot_product_effect [OF assms(1,2) d sz mem] obtain c h2 where
    p: "dot_product h a b = Inr (c, h2)" and
    c: "c = \<lparr>data = length (blocks h), n = n a, m = m b\<rparr>" and
    l: "\<And>x y. x < n a \<Longrightarrow> y < m b \<Longrightarrow>
         load h2 (Matrix_call c x y) = Inr (dot_sum (elem h a) (elem h b) (m a) x y)"
    by blast
  have "\<exists>v. load h2 (Matrix_call c i j) = Inr v \<and> feq v (elem h a i j) \<and>
      (fmag (elem h a i j) \<noteq> 0 \<longrightarrow> v = elem h a i j) \<and>
      (fmag (elem h a i j) = 0 \<longrightarrow> v = float_of_int 0)"
    if ij: "i < n a" "j < m a" for i j
  proof -
    have fin: "is_finite (elem h a i k)" if "k < m a" for k
      using assms(6) ij(1) that by simp
    have idm: "elem h b k j = (if k = j then float_of_int 1 else float_of_int 0)"
      if "k < m a" for k
      using assms(5) ij(2) that by simp
    have s: "dot_sum (elem h a) (elem h b) (m a) i j =
        (if fmag (elem h a i j) = 0 then float_of_int 0 else elem h a i j)"
      using fin idm ij(2) by (rule dot_sum_identity)
    have f: "is_finite (elem h a i j)" "\<not> is_nan (elem h a i j)"
      using fin [OF ij(2)] finite_not_special by simp_all
    have z: "is_finite (float_of_int 0)" "fmag (float_of_int 0) = 0"
      "\<not> is_nan (float_of_int 0)"
      using float_consts finite_not_special by simp_all
    have "feq (if fmag (elem h a i j) = 0 then float_of_int 0 else elem h a i j) (elem h a i j)"
      using f z by (simp add: feq_def)
    then show ?thesis
      using l [of i j] ij assms(4) s by simp
  qed
  then show ?thesis
    using p c assms(4) by auto
qed

lemma size_t_less_2: "k < (2 :: size_t) \<longleftrightarrow> k = 0 \<or> k = 1"
proof -
  have "unat k < 2 \<longleftrightarrow> unat k = 0 \<or> unat k = 1"
    by auto
  then show ?thesis
    by (simp add: word_less_nat_alt word_unat_eq_iff)
qed

lemma elems_id:
  "elem heap_id a_2x2 0 0 = float_of_int 1" "elem heap_id a_2x2 0 1 = float_of_int 2"
  "elem heap_id a_2x2 1 0 = float_of_int 3" "elem heap_id a_2x2 1 1 = float_of_int 4"
  "elem heap_id id_2x2 0 0 = float_of_int 1" "elem heap_id id_2x2 0 1 = float_of_int 0"
  "elem heap_id id_2x2 1 0 = float_of_int 0" "elem heap_id id_2x2 1 1 = float_of_int 1"
  by (simp_all add: elem_def Matrix_call_const_def load_def heap_id_def a_2x2_def id_2x2_def)

lemma finite_1234:
  "is_finite (float_of_int 1)" "is_finite (float_of_int 2)" "is_finite (float_of_int 3)"
  "is_finite (float_of_int 4)" "fmag (float_of_int 3) \<noteq> 0" "float_of_int 1 \<noteq> float_of_int 0"
  by code_simp+

theorem dot_identity_witness:
  "valid_matrix heap_id a_2x2 \<and> valid_matrix heap_id id_2x2 \<and>
   n id_2x2 = m a_2x2 \<and> m id_2x2 = m a_2x2 \<and>
   elem heap_id id_2x2 0 0 = float_of_int 1 \<and> elem heap_id id_2x2 0 1 = float_of_int 0 \<and>
   elem heap_id id_2x2 1 0 = float_of_int 0 \<and> elem heap_id id_2x2 1 1 = float_of_int 1 \<and>
   is_finite (elem heap_id a_2x2 0 0) \<and> is_finite (elem heap_id a_2x2 0 1) \<and>
   is_finite (elem heap_id a_2x2 1 0) \<and> is_finite (elem heap_id a_2x2 1 1) \<and>
   unat (n a_2x2) * unat (m a_2x2) < 2 ^ 62 \<and>
   live heap_id + unat (n a_2x2) * unat (m a_2x2) \<le> limit heap_id \<and>
   (\<exists>c h2. dot_product heap_id a_2x2 id_2x2 = Inr (c, h2) \<and>
      load h2 (Matrix_call c 1 0) = Inr (float_of_int 3))"
proof -
  have v: "valid_matrix heap_id a_2x2" "valid_matrix heap_id id_2x2"
    by (simp_all add: valid_matrix_def shaped_def heap_id_def a_2x2_def id_2x2_def)
  have dims: "n id_2x2 = m a_2x2" "m id_2x2 = m a_2x2" "m a_2x2 = 2" "n a_2x2 = 2"
    by (simp_all add: a_2x2_def id_2x2_def)
  have idm: "\<forall>k j. k < m a_2x2 \<longrightarrow> j < m a_2x2 \<longrightarrow>
      elem heap_id id_2x2 k j = (if k = j then float_of_int 1 else float_of_int 0)"
    using elems_id finite_1234(6) by (auto simp: dims size_t_less_2)
  have fin: "\<forall>i k. i < n a_2x2 \<longrightarrow> k < m a_2x2 \<longrightarrow> is_finite (elem heap_id a_2x2 i k)"
    using elems_id finite_1234 by (auto simp: dims size_t_less_2)
  have sz: "unat (n a_2x2) * unat (m a_2x2) < 2 ^ 62"
    by (simp add: dims)
  have mem: "live heap_id + unat (n a_2x2) * unat (m a_2x2) \<le> limit heap_id"
    by (simp add: dims live_def heap_id_def)
  have r: "(1 :: size_t) < n a_2x2" "(0 :: size_t) < m a_2x2"
    by (simp_all add: dims)
  from dot_identity [OF v dims(1,2) idm fin sz mem] obtain c h2 where
    p: "dot_product heap_id a_2x2 id_2x2 = Inr (c, h2)" and
    l: "\<And>i j. i < n a_2x2 \<Longrightarrow> j < m a_2x2 \<Longrightarrow>
      \<exists>v. load h2 (Matrix_call c i j) = Inr v \<and>
        (fmag (elem heap_id a_2x2 i j) \<noteq> 0 \<longrightarrow> v = elem heap_id a_2x2 i j)"
    by blast
  from l [OF r] have "load h2 (Matrix_call c 1 0) = Inr (float_of_int 3)"
    using elems_id(3) finite_1234(5) by auto
  with p have "\<exists>c h2. dot_product heap_id a_2x2 id_2x2 = Inr (c, h2) \<and>
      load h2 (Matrix_call c 1 0) = Inr (float_of_int 3)"
    by blast
  then show ?thesis
    using v dims sz mem elems_id finite_1234 by simp
qed

section \<open>The driver\<close>

lemma kernel_step_Inl: "(kernel_step a b ^^ k) (Inl e) = Inl e"
  by (induction k) (simp_all add: kernel_step_def)

lemma main_loop_funpow:
  "main_loop h a b i s = (kernel_step a b ^^ nat (main_T - i)) (Inr (s, h))"
proof (induction "nat (main_T - i)" arbitrary: i s h)
  case 0
  then have "\<not> i < main_T"
    by simp
  then show ?case
    using 0 by (subst main_loop.simps) simp
next
  case (Suc k)
  then have lt: "i < main_T" and k: "k = nat (main_T - (i + 1))"
    by simp_all
  have unfold: "(kernel_step a b ^^ nat (main_T - i)) (Inr (s, h)) =
      (kernel_step a b ^^ k) (kernel_step a b (Inr (s, h)))"
    using Suc(2) [symmetric] by (simp add: funpow_swap1)
  show ?case
  proof (cases "dot h a b")
    case (Inl e)
    then show ?thesis
      using lt unfold by (subst main_loop.simps) (simp add: kernel_step_def kernel_step_Inl)
  next
    case (Inr r)
    obtain d h' where r: "r = (d, h')"
      by (cases r)
    have "main_loop h a b i s = main_loop h' a b (i + 1) (fadd s d)"
      using lt Inr r by (subst main_loop.simps) simp
    also have "\<dots> = (kernel_step a b ^^ k) (Inr (fadd s d, h'))"
      using Suc(1) [OF k] k by simp
    also have "\<dots> = (kernel_step a b ^^ nat (main_T - i)) (Inr (s, h))"
      using unfold Inr r by (simp add: kernel_step_def)
    finally show ?thesis .
  qed
qed

lemma live_append:
  "live (h\<lparr>blocks := blocks h @ [b]\<rparr>) =
     live h + (case b of None \<Rightarrow> 0 | Some buf \<Rightarrow> length buf)"
  by (simp add: live_def)

lemma main_loop_value:
  assumes d: "m a = n b" and pos: "0 < n a" "0 < m b"
    and sz: "unat (n a) * unat (m b) < 2 ^ 62"
  shows "reads h a A \<Longrightarrow> reads h b B \<Longrightarrow> data a < length (blocks h) \<Longrightarrow>
    data b < length (blocks h) \<Longrightarrow> live h + unat (n a) * unat (m b) \<le> limit h \<Longrightarrow>
    main_loop h a b i s =
      Inr (((\<lambda>s. fadd s (dot_sum A B (m a) 0 0)) ^^ nat (main_T - i)) s,
           h\<lparr>blocks := blocks h @ replicate (nat (main_T - i)) None\<rparr>)"
proof (induction "nat (main_T - i)" arbitrary: i s h)
  case 0
  then have "\<not> i < main_T"
    by simp
  then show ?case
    using 0(1) [symmetric] by (subst main_loop.simps) simp
next
  case (Suc k)
  then have lt: "i < main_T" and k: "k = nat (main_T - (i + 1))"
    by simp_all
  define h' where "h' = h\<lparr>blocks := blocks h @ [None]\<rparr>"
  define v where "v = dot_sum A B (m a) 0 0"
  have dot: "dot h a b = Inr (v, h')"
    unfolding h'_def v_def
    using Suc(3,4,5,6) d pos sz Suc(7) by (rule dot_value_reads)
  have inv: "reads h' a A" "reads h' b B" "data a < length (blocks h')"
    "data b < length (blocks h')" "live h' + unat (n a) * unat (m b) \<le> limit h'"
    unfolding h'_def
    using reads_append [OF Suc(3,5)] reads_append [OF Suc(4,6)] Suc(5,6,7)
    by (simp_all add: live_append)
  have "main_loop h a b i s = main_loop h' a b (i + 1) (fadd s v)"
    using lt dot by (subst main_loop.simps) simp
  also have "\<dots> = Inr (((\<lambda>s. fadd s v) ^^ k) (fadd s v),
      h'\<lparr>blocks := blocks h' @ replicate k None\<rparr>)"
    using Suc(1) [OF k inv] k by (simp add: v_def)
  also have "((\<lambda>s. fadd s v) ^^ k) (fadd s v) = ((\<lambda>s. fadd s v) ^^ nat (main_T - i)) s"
    using Suc(2) [symmetric] funpow_swap1 [of "\<lambda>s. fadd s v" k s] by simp
  also have "h'\<lparr>blocks := blocks h' @ replicate k None\<rparr> =
      h\<lparr>blocks := blocks h @ replicate (nat (main_T - i)) None\<rparr>"
    using Suc(2) [symmetric] by (simp add: h'_def)
  finally show ?case
    by (simp add: v_def)
qed


lemma main_value:
  assumes mem: "live h0 + 35000 \<le> limit h0"
  defines "a \<equiv> \<lparr>data = length (blocks h0), n = 100, m = 200\<rparr>"
    and "b \<equiv> \<lparr>data = Suc (length (blocks h0)), n = 200, m = 50\<rparr>"
    and "h1 \<equiv> h0\<lparr>blocks := blocks h0 @ [Some (replicate 20000 None)]\<rparr>"
  defines "h2 \<equiv> h1\<lparr>blocks := blocks h1 @ [Some (replicate 10000 None)]\<rparr>"
  shows "\<exists>h3 h4 hf.
    Matrix_ctor h0 100 200 = Inr (a, h1) \<and> Matrix_ctor h1 200 50 = Inr (b, h2) \<and>
    fill_rand R rand h2 0 a = Inr (h3, 20000) \<and>
    fill_rand R rand h3 20000 b = Inr (h4, 30000) \<and>
    reads h4 a (\<lambda>x y. rand_float R (rand (unat x * 200 + unat y))) \<and>
    reads h4 b (\<lambda>x y. rand_float R (rand (20000 + unat x * 50 + unat y))) \<and>
    dot h4 a b =
      Inr (dot_sum (\<lambda>x y. rand_float R (rand (unat x * 200 + unat y)))
             (\<lambda>x y. rand_float R (rand (20000 + unat x * 50 + unat y))) 200 0 0,
           h4\<lparr>blocks := blocks h4 @ [None]\<rparr>) \<and>
    main R rand h0 =
      Inr (((\<lambda>s. fadd s (dot_sum (\<lambda>x y. rand_float R (rand (unat x * 200 + unat y)))
             (\<lambda>x y. rand_float R (rand (20000 + unat x * 50 + unat y))) 200 0 0)) ^^ 100)
             (float_of_int 0), hf)"
proof -
  define A where "A = (\<lambda>(x :: size_t) (y :: size_t). rand_float R (rand (unat x * 200 + unat y)))"
  define B where "B = (\<lambda>(x :: size_t) (y :: size_t). rand_float R (rand (20000 + unat x * 50 + unat y)))"
  have c1: "Matrix_ctor h0 100 200 = Inr (a, h1)"
    using Matrix_ctor_ok [of 100 200 h0] mem by (simp add: a_def h1_def)
  have l1: "live h1 = live h0 + 20000" "limit h1 = limit h0"
    by (simp_all add: h1_def live_append)
  have c2: "Matrix_ctor h1 200 50 = Inr (b, h2)"
    using Matrix_ctor_ok [of 200 50 h1] mem l1 by (simp add: b_def h2_def h1_def)
  have l2: "live h2 = live h0 + 30000" "limit h2 = limit h0"
    using l1 by (simp_all add: h2_def live_append)
  have sa: "shaped h2 a" and sb: "shaped h2 b"
    by (simp_all add: shaped_def a_def b_def h2_def h1_def nth_append)
  have fa: "data a = length (blocks h0)" "n a = 100" "m a = 200"
    and fb: "data b = Suc (length (blocks h0))" "n b = 200" "m b = 50"
    by (simp_all add: a_def b_def)
  from fill_rand_effect [OF sa, of R rand 0] obtain h3 where
    h3: "fill_rand R rand h2 0 a = Inr (h3, 20000)" "same_outside (data a) h2 h3" and
    r3: "reads h3 a A"
    by (auto simp: fa A_def)
  have sb3: "shaped h3 b"
    using same_outside_shaped [OF h3(2) sb] .
  from fill_rand_effect [OF sb3, of R rand 20000] obtain h4 where
    h4: "fill_rand R rand h3 20000 b = Inr (h4, 30000)" "same_outside (data b) h3 h4" and
    rb: "reads h4 b B"
    by (auto simp: fb B_def)
  have ne: "data a \<noteq> data b"
    by (simp add: fa fb)
  have ra: "reads h4 a A"
    using same_outside_reads [OF h4(2) ne r3] .
  have len: "length (blocks h4) = Suc (Suc (length (blocks h0)))"
    using h3(2) h4(2) by (simp add: same_outside_def h2_def h1_def)
  have pa: "data a < length (blocks h4)" and pb: "data b < length (blocks h4)"
    using len by (simp_all add: fa fb)
  have l4: "live h4 = live h0 + 30000" "limit h4 = limit h0"
    using same_outside_live [OF h3(2)] same_outside_live [OF h4(2)] l2 h3(2) h4(2)
    by (simp_all add: same_outside_def)
  have d: "m a = n b" and pos: "0 < n a" "0 < m b"
    and sz: "unat (n a) * unat (m b) < 2 ^ 62"
    by (simp_all add: fa fb)
  have m4: "live h4 + unat (n a) * unat (m b) \<le> limit h4"
    using mem l4 by (simp add: fa fb)
  have dot: "dot h4 a b = Inr (dot_sum A B (m a) 0 0, h4\<lparr>blocks := blocks h4 @ [None]\<rparr>)"
    using ra rb pa pb d pos sz m4 by (rule dot_value_reads)
  define h5 where "h5 = h4\<lparr>blocks := blocks h4 @ replicate 100 None\<rparr>"
  have loop: "main_loop h4 a b 0 (float_of_int 0) =
      Inr (((\<lambda>s. fadd s (dot_sum A B (m a) 0 0)) ^^ 100) (float_of_int 0), h5)"
    using main_loop_value [OF d pos sz ra rb pa pb m4, of 0 "float_of_int 0"]
    by (simp add: main_T_def h5_def)
  have sa4: "shaped h4 a" and sb4: "shaped h4 b"
    using same_outside_shaped [OF h4(2) same_outside_shaped [OF h3(2) sa]]
      same_outside_shaped [OF h4(2) sb3] by simp_all
  obtain bufa bufb where bufs: "blocks h4 ! data a = Some bufa" "blocks h4 ! data b = Some bufb"
    using sa4 sb4 by (auto simp: shaped_def split: option.splits)
  define h6 where "h6 = h5\<lparr>blocks := (blocks h5)[data b := None]\<rparr>"
  have d6: "Matrix_dtor h5 b = Inr h6"
    using pb bufs(2) by (simp add: Matrix_dtor_def delete_array_def h5_def h6_def nth_append)
  have d7: "\<exists>h7. Matrix_dtor h6 a = Inr h7"
    using pa pb bufs(1) ne
    by (simp add: Matrix_dtor_def delete_array_def h5_def h6_def nth_append)
  then obtain h7 where d7: "Matrix_dtor h6 a = Inr h7"
    by blast
  have "main R rand h0 =
      Inr (((\<lambda>s. fadd s (dot_sum A B (m a) 0 0)) ^^ 100) (float_of_int 0), h7)"
    using c1 c2 h3(1) h4(1) loop d6 d7
    by (simp add: main_def main_n_def main_p_def main_m_def)
  then show ?thesis
    using c1 c2 h3(1) h4(1) ra rb dot unfolding A_def B_def fa by blast
qed

text \<open>
  C7: \<^verbatim>\<open>main\<close> has the constants \<open>n = 100\<close>, \<open>p = 200\<close>, \<open>m = 50\<close> and \<open>T = 100\<close>. In a store
  with room for the three matrices it constructs \<open>a\<close> as \<open>100 \<times> 200\<close> and \<open>b\<close> as
  \<open>200 \<times> 50\<close>, fills \<open>a\<close> with the first 20000 outputs of the generator and \<open>b\<close> with the next
  10000, and then runs the loop, which is exactly \<open>T = 100\<close> passes of \<open>kernel_step\<close> from
  the accumulator \<open>0\<close>. Every call of the kernel returns the same scalar \<open>d\<close>, so that the
  accumulator ends as \<open>0 + d + \<dots> + d\<close> with 100 single-precision additions.
\<close>

theorem main_runs_kernel_T_times:
  assumes "live h0 + 35000 \<le> limit h0"
  shows "main_n = 100 \<and> main_p = 200 \<and> main_m = 50 \<and> main_T = 100 \<and>
    (\<exists>a b h1 h2 h3 h4 d hf.
       Matrix_ctor h0 100 200 = Inr (a, h1) \<and> n a = 100 \<and> m a = 200 \<and>
       Matrix_ctor h1 200 50 = Inr (b, h2) \<and> n b = 200 \<and> m b = 50 \<and>
       fill_rand RAND_MAX rand h2 0 a = Inr (h3, 20000) \<and>
       fill_rand RAND_MAX rand h3 20000 b = Inr (h4, 30000) \<and>
       dot h4 a b = Inr (d, h4\<lparr>blocks := blocks h4 @ [None]\<rparr>) \<and>
       main_loop h4 a b 0 (float_of_int 0) =
         (kernel_step a b ^^ 100) (Inr (float_of_int 0, h4)) \<and>
       main RAND_MAX rand h0 = Inr (((\<lambda>s. fadd s d) ^^ 100) (float_of_int 0), hf))"
proof -
  have cs: "main_n = 100" "main_p = 200" "main_m = 50" "main_T = 100"
    by (simp_all add: main_n_def main_p_def main_m_def main_T_def)
  have loop: "main_loop h a b 0 (float_of_int 0) =
      (kernel_step a b ^^ 100) (Inr (float_of_int 0, h))" for h a b
    using main_loop_funpow [of h a b 0 "float_of_int 0"] by (simp add: main_T_def)
  from main_value [OF assms, of RAND_MAX rand] obtain h3 h4 hf A B where
    "Matrix_ctor h0 100 200 =
       Inr (\<lparr>data = length (blocks h0), n = 100, m = 200\<rparr>,
            h0\<lparr>blocks := blocks h0 @ [Some (replicate 20000 None)]\<rparr>)"
    "Matrix_ctor (h0\<lparr>blocks := blocks h0 @ [Some (replicate 20000 None)]\<rparr>) 200 50 =
       Inr (\<lparr>data = Suc (length (blocks h0)), n = 200, m = 50\<rparr>,
            h0\<lparr>blocks := blocks h0 @ [Some (replicate 20000 None)]\<rparr>
              \<lparr>blocks := blocks (h0\<lparr>blocks := blocks h0 @ [Some (replicate 20000 None)]\<rparr>) @
                 [Some (replicate 10000 None)]\<rparr>)"
    "fill_rand RAND_MAX rand
       (h0\<lparr>blocks := blocks h0 @ [Some (replicate 20000 None)]\<rparr>
          \<lparr>blocks := blocks (h0\<lparr>blocks := blocks h0 @ [Some (replicate 20000 None)]\<rparr>) @
             [Some (replicate 10000 None)]\<rparr>) 0
       \<lparr>data = length (blocks h0), n = 100, m = 200\<rparr> = Inr (h3, 20000)"
    "fill_rand RAND_MAX rand h3 20000 \<lparr>data = Suc (length (blocks h0)), n = 200, m = 50\<rparr> =
       Inr (h4, 30000)"
    "dot h4 \<lparr>data = length (blocks h0), n = 100, m = 200\<rparr>
       \<lparr>data = Suc (length (blocks h0)), n = 200, m = 50\<rparr> =
       Inr (dot_sum A B 200 0 0, h4\<lparr>blocks := blocks h4 @ [None]\<rparr>)"
    "main RAND_MAX rand h0 =
       Inr (((\<lambda>s. fadd s (dot_sum A B 200 0 0)) ^^ 100) (float_of_int 0), hf)"
    by blast
  then show ?thesis
    using cs loop by (intro conjI exI) simp_all
qed

theorem main_runs_kernel_T_times_witness:
  "live heap_main + 35000 \<le> limit heap_main \<and>
   (\<exists>s hf. main 2147483647 rand_count heap_main = Inr (s, hf))"
proof -
  have mem: "live heap_main + 35000 \<le> limit heap_main"
    by (simp add: live_def heap_main_def)
  from main_runs_kernel_T_times [OF mem, of 2147483647 rand_count] mem show ?thesis
    by blast
qed

end
